theory Spec2Isabelle
  imports Complex_Main "HOL-Library.Sublist" "HOL-Library.AList"
begin

section \<open>Python values and primitives used by the Brave search agent\<close>

text \<open>
  The agent's tools pass around whatever \<^verbatim>\<open>response.json()\<close> produced: dictionaries,
  lists, strings, numbers, booleans and \<^verbatim>\<open>None\<close>. A dictionary is an association list in
  insertion order (Python dictionaries keep insertion order); \<open>AList.update\<close> is Python's
  item assignment: an existing key keeps its position, a new key goes to the end.
\<close>

datatype json =
    JNull
  | JBool bool
  | JNum int
  | JStr string
  | JArr "json list"
  | JObj "(string \<times> json) list"

text \<open>
  Exceptions are values. Every exception of the modelled code derives from \<^verbatim>\<open>Exception\<close>;
  \<open>RequestError\<close> is \<^verbatim>\<open>httpx.RequestError\<close>, which \<^verbatim>\<open>fetch_search_results\<close> and
  \<^verbatim>\<open>fetch_page_content\<close> catch in a handler of its own. Each constructor carries
  what \<^verbatim>\<open>str(e)\<close> returns.
\<close>

datatype pyexn =
    RequestError string
  | TypeError string
  | KeyError string
  | AttributeError string
  | OtherError string

fun exn_str :: "pyexn \<Rightarrow> string" where
  "exn_str (RequestError m) = m"
| "exn_str (TypeError m) = m"
| "exn_str (KeyError m) = m"
| "exn_str (AttributeError m) = m"
| "exn_str (OtherError m) = m"

fun is_RequestError :: "pyexn \<Rightarrow> bool" where
  "is_RequestError (RequestError m) = True"
| "is_RequestError e = False"

text \<open>\<^verbatim>\<open>type(v).__name__\<close>, as it appears in the messages of \<^verbatim>\<open>TypeError\<close>.\<close>

fun type_name :: "json \<Rightarrow> string" where
  "type_name JNull = ''NoneType''"
| "type_name (JBool b) = ''bool''"
| "type_name (JNum n) = ''int''"
| "type_name (JStr s) = ''str''"
| "type_name (JArr xs) = ''list''"
| "type_name (JObj kvs) = ''dict''"

text \<open>\<^verbatim>\<open>sub in s\<close> on two strings: \<open>sub\<close> occurs in \<open>s\<close> as a contiguous substring.\<close>

primrec str_contains :: "string \<Rightarrow> string \<Rightarrow> bool" where
  "str_contains sub [] = (sub = [])"
| "str_contains sub (c # cs) = (prefix sub (c # cs) \<or> str_contains sub cs)"

text \<open>\<^verbatim>\<open>key in v\<close> for a string \<open>key\<close>: key membership on a dictionary, element
  membership on a list, substring test on a string, \<^verbatim>\<open>TypeError\<close> on anything else.\<close>

fun py_in :: "string \<Rightarrow> json \<Rightarrow> pyexn + bool" where
  "py_in key (JObj kvs) = Inr (key \<in> set (map fst kvs))"
| "py_in key (JArr xs) = Inr (JStr key \<in> set xs)"
| "py_in key (JStr s) = Inr (str_contains key s)"
| "py_in key v = Inl (TypeError (''argument of type '' @ [CHR 0x27] @ type_name v @ [CHR 0x27] @ '' is not iterable''))"

text \<open>\<^verbatim>\<open>v[key]\<close> for a string \<open>key\<close>: only a dictionary can be indexed by a string.\<close>

fun py_getitem :: "json \<Rightarrow> string \<Rightarrow> pyexn + json" where
  "py_getitem (JObj kvs) key =
     (case map_of kvs key of
        Some x \<Rightarrow> Inr x
      | None \<Rightarrow> Inl (KeyError ([CHR 0x27] @ key @ [CHR 0x27])))"
| "py_getitem (JArr xs) key = Inl (TypeError ''list indices must be integers or slices, not str'')"
| "py_getitem (JStr s) key = Inl (TypeError ''string indices must be integers'')"
| "py_getitem v key = Inl (TypeError ([CHR 0x27] @ type_name v @ [CHR 0x27] @ '' object is not subscriptable''))"

text \<open>The items that iterating over \<open>v\<close> yields (what \<^verbatim>\<open>list.extend(v)\<close> appends):
  the elements of a list, the one-character strings of a string, the keys of a dictionary.\<close>

fun py_iter :: "json \<Rightarrow> pyexn + json list" where
  "py_iter (JArr xs) = Inr xs"
| "py_iter (JStr s) = Inr (map (\<lambda>c. JStr [c]) s)"
| "py_iter (JObj kvs) = Inr (map (\<lambda>kv. JStr (fst kv)) kvs)"
| "py_iter v = Inl (TypeError ([CHR 0x27] @ type_name v @ [CHR 0x27] @ '' object is not iterable''))"

text \<open>Truthiness (\<^verbatim>\<open>not v\<close> is its negation).\<close>

fun py_truthy :: "json \<Rightarrow> bool" where
  "py_truthy JNull = False"
| "py_truthy (JBool b) = b"
| "py_truthy (JNum n) = (n \<noteq> 0)"
| "py_truthy (JStr s) = (s \<noteq> [])"
| "py_truthy (JArr xs) = (xs \<noteq> [])"
| "py_truthy (JObj kvs) = (kvs \<noteq> [])"

text \<open>\<^verbatim>\<open>xs[:n]\<close>: a negative bound counts from the end.\<close>

definition py_slice_to :: "int \<Rightarrow> 'a list \<Rightarrow> 'a list" where
  "py_slice_to n xs =
     (if 0 \<le> n then take (nat n) xs else take (length xs - nat (- n)) xs)"

text \<open>\<^verbatim>\<open>str(n)\<close> for an integer: its decimal digits.\<close>

fun str_nat :: "nat \<Rightarrow> string" where
  "str_nat n =
     (if n < 10 then [''0123456789'' ! n]
      else str_nat (n div 10) @ [''0123456789'' ! (n mod 10)])"

declare str_nat.simps [simp del]

definition str_int :: "int \<Rightarrow> string" where
  "str_int i = (if i < 0 then ''-'' @ str_nat (nat (- i)) else str_nat (nat i))"

text \<open>Sequencing of two steps of which the first may raise.\<close>

definition and_then :: "pyexn + 'a \<Rightarrow> ('a \<Rightarrow> pyexn + 'b) \<Rightarrow> pyexn + 'b" where
  "and_then m f = (case m of Inl e \<Rightarrow> Inl e | Inr x \<Rightarrow> f x)"

text \<open>\<^verbatim>\<open>v.items()\<close> and \<^verbatim>\<open>v.get(key, default)\<close>: methods of dictionaries only.\<close>

fun py_items :: "json \<Rightarrow> pyexn + (string \<times> json) list" where
  "py_items (JObj kvs) = Inr kvs"
| "py_items v = Inl (AttributeError ([CHR 0x27] @ type_name v @ [CHR 0x27] @ '' object has no attribute '' @ [CHR 0x27] @ ''items'' @ [CHR 0x27]))"

fun py_get :: "json \<Rightarrow> string \<Rightarrow> json \<Rightarrow> pyexn + json" where
  "py_get (JObj kvs) key dflt =
     Inr (case map_of kvs key of Some x \<Rightarrow> x | None \<Rightarrow> dflt)"
| "py_get v key dflt = Inl (AttributeError ([CHR 0x27] @ type_name v @ [CHR 0x27] @ '' object has no attribute '' @ [CHR 0x27] @ ''get'' @ [CHR 0x27]))"

text \<open>\<^verbatim>\<open>range(n)\<close>: empty when \<open>n \<le> 0\<close>.\<close>

definition py_range :: "int \<Rightarrow> int list" where
  "py_range n = map int [0..<nat n]"

section \<open>The HTTP client\<close>

text \<open>
  \<^verbatim>\<open>httpx\<close> is outside the repository. A request is what the code hands to
  \<^verbatim>\<open>client.get\<close>; the client is a function from the request to what the call did: it
  raised, or it returned a response with a status code, a text body and the result of
  \<^verbatim>\<open>response.json()\<close> (which raises on a body that is not JSON).
\<close>

record http_request =
  req_url :: string
  req_headers :: "(string \<times> string) list"
  req_params :: "(string \<times> json) list"

datatype http_response =
  Response (status_code: int) (response_text: string) (response_json: "pyexn + json")

type_synonym http_client = "http_request \<Rightarrow> pyexn + http_response"

section \<open>agent\_tools.py: the fetchers\<close>

definition BRAVE_SEARCH_API_URL :: string where
  "BRAVE_SEARCH_API_URL = ''https://api.search.brave.com/res/v1/web/search''"

text \<open>The literal \<^verbatim>\<open>{"error": error_msg, "web": {"results": []}}\<close>.\<close>

definition error_envelope :: "string \<Rightarrow> json" where
  "error_envelope error_msg =
     JObj [(''error'', JStr error_msg), (''web'', JObj [(''results'', JArr [])])]"

text \<open>The request \<^verbatim>\<open>fetch_search_results\<close> builds from its arguments.\<close>

definition search_request ::
  "string \<Rightarrow> string \<Rightarrow> int \<Rightarrow> int \<Rightarrow> string \<Rightarrow> string \<Rightarrow> string \<Rightarrow> string \<Rightarrow> http_request" where
  "search_request api_key query count offset country search_lang ui_lang safesearch =
     \<lparr> req_url = BRAVE_SEARCH_API_URL,
       req_headers =
         [(''Accept'', ''application/json''),
          (''Accept-Encoding'', ''gzip''),
          (''X-Subscription-Token'', api_key)],
       req_params =
         [(''q'', JStr query),
          (''count'', JNum count),
          (''offset'', JNum offset),
          (''country'', JStr country),
          (''search_lang'', JStr search_lang),
          (''ui_lang'', JStr ui_lang),
          (''safesearch'', JStr safesearch)] \<rparr>"

text \<open>
  \<^verbatim>\<open>fetch_search_results\<close>: the whole body is inside \<^verbatim>\<open>try\<close>, with a handler for
  \<^verbatim>\<open>httpx.RequestError\<close> and one for every other \<^verbatim>\<open>Exception\<close>. \<open>handle_fetch_exn\<close> is
  the pair of handlers. Log lines are not part of the model. The last argument and the
  second component of the result are the requests sent so far: the call appends its own.
\<close>

definition handle_fetch_exn :: "pyexn \<Rightarrow> json" where
  "handle_fetch_exn e =
     (if is_RequestError e then error_envelope (''Request error: '' @ exn_str e)
      else error_envelope (''Unexpected error: '' @ exn_str e))"

definition fetch_search_results ::
  "http_client \<Rightarrow> string \<Rightarrow> string \<Rightarrow> int \<Rightarrow> int \<Rightarrow> string \<Rightarrow> string \<Rightarrow> string \<Rightarrow> string
     \<Rightarrow> http_request list \<Rightarrow> json \<times> http_request list" where
  "fetch_search_results client api_key query count offset country search_lang ui_lang safesearch sent =
     (let request = search_request api_key query count offset country search_lang ui_lang safesearch;
          sent' = sent @ [request]
      in case client request of
           Inl e \<Rightarrow> (handle_fetch_exn e, sent')
         | Inr response \<Rightarrow>
             if status_code response = 200 then
               (case response_json response of
                  Inr body \<Rightarrow> (body, sent')
                | Inl e \<Rightarrow> (handle_fetch_exn e, sent'))
             else
               (error_envelope
                  (''Brave API error: '' @ str_int (status_code response) @ '' - ''
                     @ response_text response),
                sent'))"

definition page_request :: "string \<Rightarrow> http_request" where
  "page_request url =
     \<lparr> req_url = url,
       req_headers =
         [(''Accept'', ''text/html,application/xhtml+xml''),
          (''User-Agent'',
           ''Mozilla/5.0 (Windows NT 10.0; Win64; x64) AppleWebKit/537.36 (KHTML, like Gecko) Chrome/91.0.4472.124 Safari/537.36'')],
       req_params = [] \<rparr>"

text \<open>\<^verbatim>\<open>fetch_page_content\<close>: the text of a 200 response, the empty string otherwise
  (both handlers return the empty string).\<close>

definition fetch_page_content ::
  "http_client \<Rightarrow> string \<Rightarrow> string \<Rightarrow> http_request list \<Rightarrow> string \<times> http_request list" where
  "fetch_page_content client api_key url sent =
     (let request = page_request url;
          sent' = sent @ [request]
      in case client request of
           Inl e \<Rightarrow> ('''', sent')
         | Inr response \<Rightarrow>
             if status_code response = 200 then (response_text response, sent') else ('''', sent'))"

section \<open>agent\_tools.py: search\_with\_pagination\<close>

text \<open>
  \<^verbatim>\<open>all_results\<close> is a dictionary the function builds itself: it starts as
  \<^verbatim>\<open>{"web": {"results": []}}\<close>, and the code only ever appends to the list under
  \<^verbatim>\<open>["web"]["results"]\<close>, replaces that list by a slice of it, assigns top-level keys other
  than \<^verbatim>\<open>"web"\<close> and assigns keys of \<^verbatim>\<open>all_results["web"]\<close> other than \<^verbatim>\<open>"results"\<close>. The record
  holds these three parts; \<open>json_of\<close> is the dictionary: \<^verbatim>\<open>"web"\<close> was inserted first and
  stays first, and so does \<^verbatim>\<open>"results"\<close> inside it.
\<close>

record all_results =
  result_items :: "json list"
  web_meta :: "(string \<times> json) list"
  top_meta :: "(string \<times> json) list"

definition json_of :: "all_results \<Rightarrow> json" where
  "json_of a = JObj ((''web'', JObj ((''results'', JArr (result_items a)) # web_meta a)) # top_meta a)"

definition initial_results :: all_results where
  "initial_results = \<lparr> result_items = [], web_meta = [], top_meta = [] \<rparr>"

text \<open>
  The two loops that copy metadata from the first page:
  \<^verbatim>\<open>for key, value in page_results.items(): if key != "web": all_results[key] = value\<close> and
  \<^verbatim>\<open>for key, value in page_results["web"].items(): if key != "results": all_results["web"][key] = value\<close>.
\<close>

definition copy_items :: "string \<Rightarrow> (string \<times> json) list \<Rightarrow> (string \<times> json) list \<Rightarrow> (string \<times> json) list" where
  "copy_items skip items target =
     fold (\<lambda>(key, value) d. if key \<noteq> skip then AList.update key value d else d) items target"

text \<open>
  The statement \<^verbatim>\<open>if "web" in page_results and "results" in page_results["web"]: ...\<close>.
  Everything that can raise here does so before \<^verbatim>\<open>all_results\<close> is changed: the
  condition, the argument of \<^verbatim>\<open>extend\<close> and the iteration over it. Once \<^verbatim>\<open>extend\<close> has run,
  \<^verbatim>\<open>page_results\<close> and \<^verbatim>\<open>page_results["web"]\<close> are known to be dictionaries.
\<close>

definition merge_page :: "int \<Rightarrow> all_results \<Rightarrow> json \<Rightarrow> pyexn + all_results" where
  "merge_page page a page_results =
     and_then (py_in ''web'' page_results) (\<lambda>has_web.
     and_then (if has_web
               then and_then (py_getitem page_results ''web'') (py_in ''results'')
               else Inr False) (\<lambda>has_results.
     if has_results then
       and_then (py_getitem page_results ''web'') (\<lambda>page_web.
       and_then (py_getitem page_web ''results'') (\<lambda>page_list.
       and_then (py_iter page_list) (\<lambda>new_items.
       let a1 = a\<lparr> result_items := result_items a @ new_items \<rparr> in
       if page = 0 then
         and_then (py_items page_results) (\<lambda>top_items.
         and_then (py_items page_web) (\<lambda>web_items.
         Inr (a1\<lparr> top_meta := copy_items ''web'' top_items (top_meta a1),
                 web_meta := copy_items ''results'' web_items (web_meta a1) \<rparr>)))
       else Inr a1)))
     else Inr a))"

text \<open>How one iteration of the \<^verbatim>\<open>for\<close> loop ends: with \<^verbatim>\<open>return\<close>, with \<^verbatim>\<open>break\<close>, or
  by falling through to the next page.\<close>

datatype step = Return json | Break all_results | Continue all_results

text \<open>The body of the inner \<^verbatim>\<open>try\<close>, given the value \<^verbatim>\<open>fetch_search_results\<close> returned.
  In the error branch the log line evaluates \<^verbatim>\<open>page_results['error']\<close> first.\<close>

definition page_body :: "int \<Rightarrow> int \<Rightarrow> all_results \<Rightarrow> json \<Rightarrow> pyexn + step" where
  "page_body page max_results a page_results =
     and_then (py_in ''error'' page_results) (\<lambda>has_error.
     if has_error then
       and_then (py_getitem page_results ''error'') (\<lambda>logged.
       if page = 0 then Inr (Return page_results) else Inr (Break a))
     else
       and_then (merge_page page a page_results) (\<lambda>a1.
       if int (length (result_items a1)) \<ge> max_results
       then Inr (Break (a1\<lparr> result_items := py_slice_to max_results (result_items a1) \<rparr>))
       else Inr (Continue a1)))"

text \<open>The inner \<^verbatim>\<open>try\<close> with its handler. An exception leaves \<^verbatim>\<open>all_results\<close> as it was
  before the page.\<close>

definition page_step :: "int \<Rightarrow> int \<Rightarrow> all_results \<Rightarrow> json \<Rightarrow> step" where
  "page_step page max_results a page_results =
     (case page_body page max_results a page_results of
        Inr s \<Rightarrow> s
      | Inl e \<Rightarrow>
          if page = 0 then Return (error_envelope (''Error in pagination: '' @ exn_str e))
          else Break a)"

text \<open>The options \<^verbatim>\<open>search_with_pagination\<close> passes on unchanged to every fetch.\<close>

record search_options =
  api_key :: string
  query :: string
  country :: string
  search_lang :: string
  ui_lang :: string
  safesearch :: string

definition results_per_page :: int where
  "results_per_page = 10"

text \<open>The \<^verbatim>\<open>for page in ...\<close> loop over the remaining page indices.\<close>

fun pages_loop ::
  "http_client \<Rightarrow> search_options \<Rightarrow> int \<Rightarrow> int list \<Rightarrow> all_results \<Rightarrow> http_request list
     \<Rightarrow> json \<times> http_request list" where
  "pages_loop client opts max_results [] a sent = (json_of a, sent)"
| "pages_loop client opts max_results (page # rest) a sent =
     (let (page_results, sent') =
            fetch_search_results client (api_key opts) (query opts) results_per_page page
              (country opts) (search_lang opts) (ui_lang opts) (safesearch opts) sent
      in case page_step page max_results a page_results of
           Return v \<Rightarrow> (v, sent')
         | Break a' \<Rightarrow> (json_of a', sent')
         | Continue a' \<Rightarrow> pages_loop client opts max_results rest a' sent')"

text \<open>
  \<^verbatim>\<open>search_with_pagination\<close>. \<^verbatim>\<open>//\<close> on integers rounds down, as \<open>div\<close> does. Nothing
  outside the loop can raise when \<^verbatim>\<open>max_results\<close> is an integer, so the outer handler has
  no branch here.
\<close>

definition num_pages :: "int \<Rightarrow> int" where
  "num_pages max_results = (max_results + results_per_page - 1) div results_per_page"

definition search_with_pagination ::
  "http_client \<Rightarrow> search_options \<Rightarrow> int \<Rightarrow> http_request list \<Rightarrow> json \<times> http_request list" where
  "search_with_pagination client opts max_results sent =
     pages_loop client opts max_results (py_range (num_pages max_results)) initial_results sent"

subsection \<open>Pages of one aggregation\<close>

text \<open>The request the loop sends for a page index, and the value
  \<^verbatim>\<open>fetch_search_results\<close> returns for it.\<close>

definition page_request_of :: "search_options \<Rightarrow> int \<Rightarrow> http_request" where
  "page_request_of opts page =
     search_request (api_key opts) (query opts) results_per_page page
       (country opts) (search_lang opts) (ui_lang opts) (safesearch opts)"

definition page_value :: "http_client \<Rightarrow> search_options \<Rightarrow> int \<Rightarrow> json" where
  "page_value client opts page =
     fst (fetch_search_results client (api_key opts) (query opts) results_per_page page
            (country opts) (search_lang opts) (ui_lang opts) (safesearch opts) [])"

text \<open>A page fails when \<^verbatim>\<open>"error" in page_results\<close> holds or raises, or when merging the
  page raises: the cases in which the loop returns or breaks without looking at the
  number of results.\<close>

definition page_fails :: "int \<Rightarrow> json \<Rightarrow> bool" where
  "page_fails page page_results =
     (case py_in ''error'' page_results of
        Inl e \<Rightarrow> True
      | Inr True \<Rightarrow> True
      | Inr False \<Rightarrow>
          (case merge_page page initial_results page_results of
             Inl e \<Rightarrow> True
           | Inr a \<Rightarrow> False))"

text \<open>The items a page adds to the list: what merging it into the initial
  \<^verbatim>\<open>all_results\<close> leaves there.\<close>

definition page_items :: "int \<Rightarrow> json \<Rightarrow> json list" where
  "page_items page page_results =
     (case merge_page page initial_results page_results of
        Inr a \<Rightarrow> result_items a
      | Inl e \<Rightarrow> [])"

text \<open>The value of \<^verbatim>\<open>all_results\<close> with which the loop arrives at page \<open>k\<close>, if it gets
  that far: every earlier iteration fell through to the next page.\<close>

fun arrives :: "http_client \<Rightarrow> search_options \<Rightarrow> int \<Rightarrow> nat \<Rightarrow> all_results option" where
  "arrives client opts max_results 0 = Some initial_results"
| "arrives client opts max_results (Suc k) =
     (case arrives client opts max_results k of
        None \<Rightarrow> None
      | Some a \<Rightarrow>
          (case page_step (int k) max_results a (page_value client opts (int k)) of
             Continue a' \<Rightarrow> Some a'
           | Return v \<Rightarrow> None
           | Break a' \<Rightarrow> None))"

text \<open>\<^verbatim>\<open>v["web"]["results"]\<close>.\<close>

definition web_results_of :: "json \<Rightarrow> pyexn + json" where
  "web_results_of v = and_then (py_getitem v ''web'') (\<lambda>web. py_getitem web ''results'')"

text \<open>The items of \<^verbatim>\<open>v["web"]["results"]\<close>: the elements of that list (for a string or
  a dictionary in its place, what iterating over it yields); none when \<open>v\<close> has no such
  entry.\<close>

definition web_items :: "json \<Rightarrow> json list" where
  "web_items v =
     (case web_results_of v of
        Inl e \<Rightarrow> []
      | Inr found \<Rightarrow> (case py_iter found of Inl e \<Rightarrow> [] | Inr xs \<Rightarrow> xs))"

section \<open>agent.py: the tools\<close>

text \<open>
  \<^verbatim>\<open>get_page_content\<close>. The value of \<^verbatim>\<open>fetch_page_content\<close> is a string, so
  \<^verbatim>\<open>"error" in content\<close> is a substring test, and \<^verbatim>\<open>content['error']\<close>, evaluated for the
  log line of that branch, indexes a string by a string: it raises \<^verbatim>\<open>TypeError\<close>, which the
  handler of the tool turns into the empty string.
\<close>

definition get_page_content ::
  "http_client \<Rightarrow> string \<Rightarrow> string \<Rightarrow> http_request list \<Rightarrow> string \<times> http_request list" where
  "get_page_content client brave_api_key url sent =
     (let (content, sent') = fetch_page_content client brave_api_key url sent in
      case py_in ''error'' (JStr content) of
        Inl e \<Rightarrow> ('''', sent')
      | Inr True \<Rightarrow>
          (case py_getitem (JStr content) ''error'' of
             Inl e \<Rightarrow> ('''', sent')
           | Inr logged \<Rightarrow> ('''', sent'))
      | Inr False \<Rightarrow> (content, sent'))"

text \<open>
  \<^verbatim>\<open>summarize_search_results\<close>. \<open>py_str\<close> is what an f-string puts in for a value;
  for lists and dictionaries that is Python's \<^verbatim>\<open>repr\<close>, which is taken as a parameter.
\<close>

definition py_str :: "(json \<Rightarrow> string) \<Rightarrow> json \<Rightarrow> string" where
  "py_str repr v =
     (case v of
        JStr s \<Rightarrow> s
      | JNum n \<Rightarrow> str_int n
      | JNull \<Rightarrow> ''None''
      | JBool b \<Rightarrow> (if b then ''True'' else ''False'')
      | JArr xs \<Rightarrow> repr v
      | JObj kvs \<Rightarrow> repr v)"

definition NO_RESULTS :: string where
  "NO_RESULTS = ''No search results found.''"

text \<open>One pass of the loop body: the three \<^verbatim>\<open>result.get\<close> calls and the three appended lines.\<close>

definition summarize_item :: "(json \<Rightarrow> string) \<Rightarrow> int \<Rightarrow> json \<Rightarrow> string \<Rightarrow> pyexn + string" where
  "summarize_item repr i result summary =
     and_then (py_get result ''title'' (JStr ''No title'')) (\<lambda>title.
     and_then (py_get result ''url'' (JStr ''No URL'')) (\<lambda>url.
     and_then (py_get result ''description'' (JStr ''No description'')) (\<lambda>description.
     Inr (summary
          @ ''### '' @ str_int i @ ''. '' @ py_str repr title @ [CHR 0x0A]
          @ ''**URL**: '' @ py_str repr url @ [CHR 0x0A]
          @ ''**Description**: '' @ py_str repr description @ [CHR 0x0A, CHR 0x0A]))))"

fun summarize_loop :: "(json \<Rightarrow> string) \<Rightarrow> int \<Rightarrow> json list \<Rightarrow> string \<Rightarrow> pyexn + string" where
  "summarize_loop repr i [] summary = Inr summary"
| "summarize_loop repr i (result # rest) summary =
     and_then (summarize_item repr i result summary) (summarize_loop repr (i + 1) rest)"

text \<open>The condition \<^verbatim>\<open>not results or not results.get('web', {}).get('results')\<close>.\<close>

definition no_results :: "json \<Rightarrow> pyexn + bool" where
  "no_results results =
     (if \<not> py_truthy results then Inr True
      else
        and_then (py_get results ''web'' (JObj [])) (\<lambda>web.
        and_then (py_get web ''results'' JNull) (\<lambda>found.
        Inr (\<not> py_truthy found))))"

definition summarize_try :: "(json \<Rightarrow> string) \<Rightarrow> json \<Rightarrow> pyexn + string" where
  "summarize_try repr results =
     and_then (no_results results) (\<lambda>nothing.
     if nothing then Inr NO_RESULTS
     else
       and_then (py_getitem results ''web'') (\<lambda>web.
       and_then (py_getitem web ''results'') (\<lambda>web_results.
       and_then (py_iter web_results) (\<lambda>numbered.
       summarize_loop repr 1 numbered (''## Search Results'' @ [CHR 0x0A, CHR 0x0A])))))"

text \<open>The tool: the handler turns any exception into the empty string.\<close>

definition summarize_search_results :: "(json \<Rightarrow> string) \<Rightarrow> json \<Rightarrow> string" where
  "summarize_search_results repr results =
     (case summarize_try repr results of Inr summary \<Rightarrow> summary | Inl e \<Rightarrow> [])"

section \<open>main.py: run\_agent\_with\_retry\<close>

text \<open>
  The agent runtime (\<^verbatim>\<open>brave_search_agent.run\<close>) is outside the repository. It is a
  function of the number of times it has been invoked before, the user input, the
  dependencies and the message history; it returns a result or raises, and hands back the
  history list, which it received by reference and may have changed.

  What the loop does besides returning is a list of events: an invocation of the runtime,
  or \<^verbatim>\<open>asyncio.sleep(d)\<close>.
\<close>

datatype event = AgentRun | Sleep int

text \<open>What \<^verbatim>\<open>raise last_error\<close> raises: the captured exception of the runtime, or, when
  \<^verbatim>\<open>last_error\<close> is still \<^verbatim>\<open>None\<close>, the \<^verbatim>\<open>TypeError\<close> Python raises for \<^verbatim>\<open>raise None\<close>.\<close>

datatype 'e raised = AgentFault 'e | RaiseNone

type_synonym ('d, 'm, 'e, 'r) agent_runtime =
  "nat \<Rightarrow> string \<Rightarrow> 'd \<Rightarrow> 'm list \<Rightarrow> ('e + 'r) \<times> 'm list"

function retry_loop ::
  "('d, 'm, 'e, 'r) agent_runtime \<Rightarrow> string \<Rightarrow> 'd \<Rightarrow> int \<Rightarrow> int \<Rightarrow> 'e option \<Rightarrow> 'm list \<Rightarrow> event list
     \<Rightarrow> ('e raised + 'r \<times> 'm list) \<times> event list" where
  "retry_loop run user_input deps max_retries retries last_error message_history events =
     (if retries < max_retries then
        (case run (nat retries) user_input deps message_history of
           (Inr result, history) \<Rightarrow> (Inr (result, history), events @ [AgentRun])
         | (Inl e, history) \<Rightarrow>
             retry_loop run user_input deps max_retries (retries + 1) (Some e) history
               (events @ [AgentRun] @ (if retries + 1 < max_retries then [Sleep 1] else [])))
      else
        (case last_error of
           None \<Rightarrow> (Inl RaiseNone, events)
         | Some e \<Rightarrow> (Inl (AgentFault e), events)))"
  by pat_completeness auto
termination
  by (relation "measure (\<lambda>(run, user_input, deps, max_retries, retries, rest). nat (max_retries - retries))")
     auto

declare retry_loop.simps [simp del]

definition run_agent_with_retry ::
  "('d, 'm, 'e, 'r) agent_runtime \<Rightarrow> string \<Rightarrow> 'd \<Rightarrow> 'm list option \<Rightarrow> int
     \<Rightarrow> ('e raised + 'r \<times> 'm list) \<times> event list" where
  "run_agent_with_retry run user_input deps message_history max_retries =
     retry_loop run user_input deps max_retries 0 None
       (case message_history of None \<Rightarrow> [] | Some history \<Rightarrow> history) []"

section \<open>Example inputs\<close>

text \<open>
  A search for which the first page answers 200 with two results and some metadata, and
  every later page answers 500; and a client whose every call raises
  \<^verbatim>\<open>httpx.RequestError\<close>.
\<close>

definition example_opts :: search_options where
  "example_opts =
     \<lparr> api_key = ''k'', query = ''cats'', country = ''US'', search_lang = ''en'',
       ui_lang = ''en-US'', safesearch = ''moderate'' \<rparr>"

definition example_page :: json where
  "example_page =
     JObj [(''type'', JStr ''search''),
           (''web'', JObj [(''family_friendly'', JBool True),
                           (''results'', JArr [JObj [(''title'', JStr ''A'')],
                                               JObj [(''title'', JStr ''B'')]])])]"

definition example_client :: http_client where
  "example_client request =
     (if map_of (req_params request) ''offset'' = Some (JNum 0)
      then Inr (Response 200 ''{...}'' (Inr example_page))
      else Inr (Response 500 ''Internal Server Error'' (Inl (OtherError ''Expecting value''))))"

definition failing_client :: http_client where
  "failing_client request = Inl (RequestError ''connection refused'')"

text \<open>
  A search with two good pages, the second with metadata of its own, and a 500 from the
  third page on; and a search whose first page answers 200 with metadata and no
  \<^verbatim>\<open>"web"\<close> entry.
\<close>

definition second_page :: json where
  "second_page =
     JObj [(''type'', JStr ''other''),
           (''web'', JObj [(''results'', JArr [JObj [(''title'', JStr ''C'')]]),
                           (''family_friendly'', JBool False)])]"

definition two_page_client :: http_client where
  "two_page_client request =
     (if map_of (req_params request) ''offset'' = Some (JNum 0)
      then Inr (Response 200 ''{...}'' (Inr example_page))
      else if map_of (req_params request) ''offset'' = Some (JNum 1)
      then Inr (Response 200 ''{...}'' (Inr second_page))
      else Inr (Response 500 ''Internal Server Error'' (Inl (OtherError ''Expecting value''))))"

definition bare_page :: json where
  "bare_page = JObj [(''type'', JStr ''search''), (''query'', JObj [(''original'', JStr ''cats'')])]"

definition bare_client :: http_client where
  "bare_client request = Inr (Response 200 ''{...}'' (Inr bare_page))"

section \<open>Results\<close>

lemma str_contains_iff_sublist: "str_contains sub s \<longleftrightarrow> sublist sub s"
  by (induction s) (auto simp: sublist_Cons_right)

subsection \<open>The fetchers\<close>

lemma handle_fetch_exn_shape:
  "\<exists>msg. handle_fetch_exn e = JObj [(''error'', JStr msg), (''web'', JObj [(''results'', JArr [])])]
     \<and> msg \<noteq> []"
  by (simp add: handle_fetch_exn_def error_envelope_def)

text \<open>
  Claim C8. Whenever the HTTP call of \<^verbatim>\<open>fetch_search_results\<close> raises (a transport fault or
  any other exception) or answers with a status other than 200, the function returns a
  value, and that value is exactly a dictionary with a non-empty string under \<^verbatim>\<open>"error"\<close>
  and the empty list under \<^verbatim>\<open>["web"]["results"]\<close>. The function has no way to raise: its
  result type has no exception in it, every handler being a branch of the definition.
\<close>

theorem C8_fetch_search_results_error_envelope:
  assumes "(\<exists>e. client (search_request key q cnt off c sl ul ss) = Inl e)
         \<or> (\<exists>response. client (search_request key q cnt off c sl ul ss) = Inr response
               \<and> status_code response \<noteq> 200)"
  shows "\<exists>msg. fst (fetch_search_results client key q cnt off c sl ul ss sent)
             = JObj [(''error'', JStr msg), (''web'', JObj [(''results'', JArr [])])]
           \<and> msg \<noteq> []"
  using assms handle_fetch_exn_shape
  by (auto simp: fetch_search_results_def Let_def error_envelope_def)

theorem C8_fetch_search_results_error_envelope_witness:
  "(\<lambda>r. Inr (Response 429 ''slow down'' (Inl (OtherError ''no JSON''))))
       (search_request ''k'' ''cats'' 10 0 ''US'' ''en'' ''en-US'' ''moderate'')
     = (Inr (Response 429 ''slow down'' (Inl (OtherError ''no JSON''))) :: pyexn + http_response)
   \<and> status_code (Response 429 ''slow down'' (Inl (OtherError ''no JSON''))) \<noteq> 200
   \<and> (\<exists>msg. fst (fetch_search_results (\<lambda>r. Inr (Response 429 ''slow down'' (Inl (OtherError ''no JSON''))))
                ''k'' ''cats'' 10 0 ''US'' ''en'' ''en-US'' ''moderate'' [])
             = JObj [(''error'', JStr msg), (''web'', JObj [(''results'', JArr [])])]
           \<and> msg \<noteq> [])"
  using C8_fetch_search_results_error_envelope
          [of "\<lambda>r. Inr (Response 429 ''slow down'' (Inl (OtherError ''no JSON'')))"
              "''k''" "''cats''" 10 0 "''US''" "''en''" "''en-US''" "''moderate''" "[]"]
  by simp

subsection \<open>get\_page\_content\<close>

lemma get_page_content_value:
  "fst (get_page_content client k url sent) =
     (if sublist ''error'' (fst (fetch_page_content client k url sent)) then []
      else fst (fetch_page_content client k url sent))"
  by (auto simp: get_page_content_def Let_def str_contains_iff_sublist
           split: prod.splits sum.splits bool.splits)

text \<open>
  Claim C1. The tool is claimed to hand back the body of every page fetched with status
  200. It does so only for a body in which the text \<^verbatim>\<open>error\<close> does not occur
  (\<open>get_page_content_value\<close>). Here the page answers 200 with the body
  \<^verbatim>\<open>An error occurred\<close>: \<^verbatim>\<open>fetch_page_content\<close> returns that body, and the tool returns the
  empty string.
\<close>

theorem C1_get_page_content_drops_body:
  "fst (fetch_page_content (\<lambda>r. Inr (Response 200 ''An error occurred'' (Inl (OtherError ''no JSON''))))
          ''k'' ''http://a'' []) = ''An error occurred''
   \<and> fst (get_page_content (\<lambda>r. Inr (Response 200 ''An error occurred'' (Inl (OtherError ''no JSON''))))
          ''k'' ''http://a'' []) = []"
  by (simp add: get_page_content_def fetch_page_content_def Let_def)

subsection \<open>summarize\_search\_results\<close>

text \<open>The example of the specification: one result is rendered as a numbered block.\<close>

lemma summarize_example:
  "summarize_search_results repr
     (JObj [(''web'', JObj [(''results'',
        JArr [JObj [(''title'', JStr ''A''), (''url'', JStr ''http://a''), (''description'', JStr ''d'')]])])])
   = ''## Search Results'' @ [CHR 0x0A, CHR 0x0A]
     @ ''### 1. A'' @ [CHR 0x0A] @ ''**URL**: http://a'' @ [CHR 0x0A]
     @ ''**Description**: d'' @ [CHR 0x0A, CHR 0x0A]"
  by (simp add: summarize_search_results_def summarize_try_def no_results_def summarize_item_def
                and_then_def py_str_def str_int_def str_nat.simps)

text \<open>
  Claim C9, as stated, at the input \<^verbatim>\<open>{"web": None}\<close>. There is no list under
  \<^verbatim>\<open>["web"]["results"]\<close> in it (the lookup raises), yet the tool does not answer with
  the fixed message: \<^verbatim>\<open>results.get('web', {})\<close> is \<^verbatim>\<open>None\<close>, \<^verbatim>\<open>None.get\<close> raises
  \<^verbatim>\<open>AttributeError\<close>, and the handler returns the empty string.
\<close>

theorem C9_summarize_web_null_counterexample:
  "and_then (py_getitem (JObj [(''web'', JNull)]) ''web'') (\<lambda>web. py_getitem web ''results'')
     = Inl (TypeError ([CHR 0x27] @ ''NoneType'' @ [CHR 0x27] @ '' object is not subscriptable''))
   \<and> summarize_search_results (\<lambda>v. []) (JObj [(''web'', JNull)]) = []
   \<and> summarize_search_results (\<lambda>v. []) (JObj [(''web'', JNull)]) \<noteq> ''No search results found.''"
  by (simp add: summarize_search_results_def summarize_try_def no_results_def and_then_def)

text \<open>
  Claim C9, amended. The tool returns exactly \<^verbatim>\<open>No search results found.\<close> for every
  falsy input (the empty dictionary among them), for every dictionary without a
  \<^verbatim>\<open>"web"\<close> key, and for every dictionary whose \<^verbatim>\<open>"web"\<close> entry is a dictionary in which
  \<^verbatim>\<open>"results"\<close> is missing or falsy (the empty list, \<^verbatim>\<open>None\<close>). For a dictionary whose
  \<^verbatim>\<open>"web"\<close> entry is present and is not a dictionary, it returns the empty string.
\<close>

theorem C9_summarize_no_results:
  "(\<not> py_truthy results
      \<or> (\<exists>kvs. results = JObj kvs \<and>
            (map_of kvs ''web'' = None
             \<or> (\<exists>web. map_of kvs ''web'' = Some (JObj web) \<and>
                   (case map_of web ''results'' of None \<Rightarrow> True | Some found \<Rightarrow> \<not> py_truthy found))))
      \<longrightarrow> summarize_search_results repr results = ''No search results found.'')
   \<and> ((\<exists>kvs web. results = JObj kvs \<and> map_of kvs ''web'' = Some web \<and> (\<forall>w. web \<noteq> JObj w))
      \<longrightarrow> summarize_search_results repr results = [])"
proof (intro conjI impI)
  assume "\<not> py_truthy results
      \<or> (\<exists>kvs. results = JObj kvs \<and>
            (map_of kvs ''web'' = None
             \<or> (\<exists>web. map_of kvs ''web'' = Some (JObj web) \<and>
                   (case map_of web ''results'' of None \<Rightarrow> True | Some found \<Rightarrow> \<not> py_truthy found))))"
  then have "no_results results = Inr True"
    by (auto simp: no_results_def and_then_def split: option.splits)
  then show "summarize_search_results repr results = ''No search results found.''"
    by (simp add: summarize_search_results_def summarize_try_def and_then_def NO_RESULTS_def)
next
  assume "\<exists>kvs web. results = JObj kvs \<and> map_of kvs ''web'' = Some web \<and> (\<forall>w. web \<noteq> JObj w)"
  then obtain kvs web
    where r: "results = JObj kvs" "map_of kvs ''web'' = Some web" "\<forall>w. web \<noteq> JObj w"
    by blast
  from r(2) have "kvs \<noteq> []" by auto
  moreover from r(3) have "\<exists>e. py_get web ''results'' JNull = Inl e"
    by (cases web) auto
  ultimately have "\<exists>e. no_results results = Inl e"
    using r by (auto simp: no_results_def and_then_def)
  then show "summarize_search_results repr results = []"
    by (auto simp: summarize_search_results_def summarize_try_def and_then_def)
qed

theorem C9_summarize_no_results_witness:
  "\<not> py_truthy (JObj [])
   \<and> summarize_search_results (\<lambda>v. []) (JObj []) = ''No search results found.''
   \<and> map_of [(''web'', JObj [(''results'', JArr [])])] ''web'' = Some (JObj [(''results'', JArr [])])
   \<and> summarize_search_results (\<lambda>v. []) (JObj [(''web'', JObj [(''results'', JArr [])])])
       = ''No search results found.''
   \<and> map_of [(''web'', JNull)] ''web'' = Some JNull
   \<and> summarize_search_results (\<lambda>v. []) (JObj [(''web'', JNull)]) = []"
  using C9_summarize_no_results [of "JObj []" "\<lambda>v. []"]
        C9_summarize_no_results [of "JObj [(''web'', JObj [(''results'', JArr [])])]" "\<lambda>v. []"]
        C9_summarize_no_results [of "JObj [(''web'', JNull)]" "\<lambda>v. []"]
  by simp

subsection \<open>run\_agent\_with\_retry\<close>

lemma retry_loop_exhausted:
  "\<not> retries < max_retries \<Longrightarrow>
   retry_loop run ui deps max_retries retries last_error history events =
     (case last_error of None \<Rightarrow> (Inl RaiseNone, events) | Some e \<Rightarrow> (Inl (AgentFault e), events))"
  by (simp add: retry_loop.simps)

lemma retry_loop_success:
  "retries < max_retries \<Longrightarrow> run (nat retries) ui deps history = (Inr result, history') \<Longrightarrow>
   retry_loop run ui deps max_retries retries last_error history events =
     (Inr (result, history'), events @ [AgentRun])"
  by (simp add: retry_loop.simps)

lemma retry_loop_failure:
  "retries < max_retries \<Longrightarrow> run (nat retries) ui deps history = (Inl e, history') \<Longrightarrow>
   retry_loop run ui deps max_retries retries last_error history events =
     retry_loop run ui deps max_retries (retries + 1) (Some e) history'
       (events @ [AgentRun] @ (if retries + 1 < max_retries then [Sleep 1] else []))"
  by (simp add: retry_loop.simps)

text \<open>
  Claim C7. With \<^verbatim>\<open>max_retries = 3\<close> and a runtime whose first two invocations raise:
  if the third returns a result, the loop returns that result with the history, after
  exactly the events run, sleep 1, run, sleep 1, run (three invocations, no fourth); if
  the third raises too, the events are the same (no sleep after the last attempt) and the
  loop raises the exception of the third invocation, the last one captured. \<open>h0\<close> is the
  history the loop starts from: the argument, or the empty list when it is \<^verbatim>\<open>None\<close>.
\<close>

theorem C7_three_attempts:
  assumes "h0 = (case message_history of None \<Rightarrow> [] | Some history \<Rightarrow> history)"
      and "run 0 ui deps h0 = (Inl e1, h1)"
      and "run 1 ui deps h1 = (Inl e2, h2)"
  shows "(run 2 ui deps h2 = (Inr result, h3) \<longrightarrow>
            run_agent_with_retry run ui deps message_history 3
              = (Inr (result, h3), [AgentRun, Sleep 1, AgentRun, Sleep 1, AgentRun]))
       \<and> (run 2 ui deps h2 = (Inl e3, h3) \<longrightarrow>
            run_agent_with_retry run ui deps message_history 3
              = (Inl (AgentFault e3), [AgentRun, Sleep 1, AgentRun, Sleep 1, AgentRun]))"
proof -
  have first: "retry_loop run ui deps 3 0 None h0 [] =
               retry_loop run ui deps 3 1 (Some e1) h1 [AgentRun, Sleep 1]"
    using retry_loop_failure [of 0 3 run ui deps h0 e1 h1 None "[]"] assms(2) by simp
  have second: "retry_loop run ui deps 3 1 (Some e1) h1 [AgentRun, Sleep 1] =
                retry_loop run ui deps 3 2 (Some e2) h2 [AgentRun, Sleep 1, AgentRun, Sleep 1]"
    using retry_loop_failure [of 1 3 run ui deps h1 e2 h2 "Some e1" "[AgentRun, Sleep 1]"] assms(3)
    by simp
  have third_ok: "retry_loop run ui deps 3 2 (Some e2) h2 [AgentRun, Sleep 1, AgentRun, Sleep 1]
                  = (Inr (result, h3), [AgentRun, Sleep 1, AgentRun, Sleep 1, AgentRun])"
    if "run 2 ui deps h2 = (Inr result, h3)"
    using retry_loop_success
            [of 2 3 run ui deps h2 result h3 "Some e2" "[AgentRun, Sleep 1, AgentRun, Sleep 1]"] that
    by simp
  have third_fail: "retry_loop run ui deps 3 2 (Some e2) h2 [AgentRun, Sleep 1, AgentRun, Sleep 1]
                  = (Inl (AgentFault e3), [AgentRun, Sleep 1, AgentRun, Sleep 1, AgentRun])"
    if "run 2 ui deps h2 = (Inl e3, h3)"
    using retry_loop_failure
            [of 2 3 run ui deps h2 e3 h3 "Some e2" "[AgentRun, Sleep 1, AgentRun, Sleep 1]"] that
    by (simp add: retry_loop_exhausted)
  show ?thesis
    using first second third_ok third_fail assms(1)
    by (simp add: run_agent_with_retry_def)
qed

theorem C7_three_attempts_witness:
  "(\<lambda>n ui deps h. (if n < 2 then Inl (''boom'', n) else Inr ''answer'', h @ [ui])) 0 ''hi'' () [''m'']
      = (Inl (''boom'', 0::nat) :: (string \<times> nat) + string, [''m'', ''hi''])
   \<and> run_agent_with_retry (\<lambda>n ui deps h. (if n < 2 then Inl (''boom'', n) else Inr ''answer'', h @ [ui]))
        ''hi'' () (Some [''m'']) 3
      = (Inr (''answer'', [''m'', ''hi'', ''hi'', ''hi'']), [AgentRun, Sleep 1, AgentRun, Sleep 1, AgentRun])
   \<and> run_agent_with_retry (\<lambda>n ui deps h. (Inl (''boom'', n) :: (string \<times> nat) + string, h))
        ''hi'' () None 3
      = (Inl (AgentFault (''boom'', 2)), [AgentRun, Sleep 1, AgentRun, Sleep 1, AgentRun])"
  using C7_three_attempts
          [of "[''m'']" "Some [''m'']"
              "\<lambda>n ui deps h. (if n < 2 then Inl (''boom'', n) else Inr ''answer'', h @ [ui])"
              "''hi''" "()" "(''boom'', 0)" "[''m'', ''hi'']" "(''boom'', 1)" "[''m'', ''hi'', ''hi'']"
              "''answer''" "[''m'', ''hi'', ''hi'', ''hi'']" "(''boom'', 7)"]
        C7_three_attempts
          [of "[]" "None"
              "\<lambda>n ui deps h. (Inl (''boom'', n) :: (string \<times> nat) + string, h)"
              "''hi''" "()" "(''boom'', 0)" "[]" "(''boom'', 1)" "[]"
              "''answer''" "[]" "(''boom'', 2)"]
  by simp

text \<open>
  Claim C10. With \<^verbatim>\<open>max_retries \<le> 0\<close> the loop body never runs: no event happens (the
  runtime is not invoked), and \<^verbatim>\<open>raise last_error\<close> finds \<^verbatim>\<open>last_error\<close> still \<^verbatim>\<open>None\<close>, so
  what is raised is not an exception of the runtime.
\<close>

theorem C10_no_attempt_raises_None:
  assumes "max_retries \<le> 0"
  shows "run_agent_with_retry run ui deps message_history max_retries = (Inl RaiseNone, [])"
  using assms by (simp add: run_agent_with_retry_def retry_loop_exhausted)

theorem C10_no_attempt_raises_None_witness:
  "(0::int) \<le> 0 \<and> (-2::int) \<le> 0
   \<and> run_agent_with_retry (\<lambda>n ui deps h. (Inr ''answer'' :: string + string, h @ [ui]))
         ''hi'' () (Some [''m'']) 0
       = (Inl RaiseNone, [])
   \<and> run_agent_with_retry (\<lambda>n ui deps h. (Inr ''answer'' :: string + string, h @ [ui]))
         ''hi'' () None (-2)
       = (Inl RaiseNone, [])"
  using C10_no_attempt_raises_None
          [of 0 "\<lambda>n ui deps h. (Inr ''answer'' :: string + string, h @ [ui])" "''hi''" "()" "Some [''m'']"]
        C10_no_attempt_raises_None
          [of "-2" "\<lambda>n ui deps h. (Inr ''answer'' :: string + string, h @ [ui])" "''hi''" "()" "None"]
  by simp

subsection \<open>search\_with\_pagination: the loop\<close>

text \<open>Unrolling: a run of the loop is the run from any page it arrives at.\<close>

lemma fetch_page_eq:
  "fetch_search_results client (api_key opts) (query opts) results_per_page page
      (country opts) (search_lang opts) (ui_lang opts) (safesearch opts) sent
   = (page_value client opts page, sent @ [page_request_of opts page])"
  by (simp add: fetch_search_results_def page_value_def page_request_of_def Let_def
           split: sum.splits)

lemma pages_loop_Cons:
  "pages_loop client opts m (page # rest) a sent =
     (case page_step page m a (page_value client opts page) of
        Return v \<Rightarrow> (v, sent @ [page_request_of opts page])
      | Break a' \<Rightarrow> (json_of a', sent @ [page_request_of opts page])
      | Continue a' \<Rightarrow> pages_loop client opts m rest a' (sent @ [page_request_of opts page]))"
  by (simp add: fetch_page_eq)

lemma pages_loop_from:
  assumes "k < n"
  shows "pages_loop client opts m (map int [k..<n]) a sent =
     (case page_step (int k) m a (page_value client opts (int k)) of
        Return v \<Rightarrow> (v, sent @ [page_request_of opts (int k)])
      | Break a' \<Rightarrow> (json_of a', sent @ [page_request_of opts (int k)])
      | Continue a' \<Rightarrow>
          pages_loop client opts m (map int [Suc k..<n]) a' (sent @ [page_request_of opts (int k)]))"
  using assms by (simp add: upt_conv_Cons pages_loop_Cons del: pages_loop.simps)

lemma arrives_loop:
  "arrives client opts m k = Some a \<Longrightarrow> k \<le> n \<Longrightarrow>
   pages_loop client opts m (map int [0..<n]) initial_results sent =
   pages_loop client opts m (map int [k..<n]) a
     (sent @ map (\<lambda>i. page_request_of opts (int i)) [0..<k])"
proof (induction k arbitrary: a)
  case 0
  then show ?case by simp
next
  case (Suc k)
  from Suc.prems(1) obtain b where b: "arrives client opts m k = Some b"
    and step: "page_step (int k) m b (page_value client opts (int k)) = Continue a"
    by (auto split: option.splits step.splits)
  from Suc.prems(2) have "k < n" by simp
  with Suc.IH [OF b] step show ?case
    by (simp add: pages_loop_from)
qed

lemma run_cases:
  "(\<exists>a. arrives client opts m n = Some a)
   \<or> (\<exists>k<n. \<exists>a. arrives client opts m k = Some a
          \<and> (\<forall>a'. page_step (int k) m a (page_value client opts (int k)) \<noteq> Continue a'))"
proof (induction n)
  case 0
  then show ?case by simp
next
  case (Suc n)
  then show ?case
  proof
    assume "\<exists>a. arrives client opts m n = Some a"
    then obtain a where a: "arrives client opts m n = Some a" ..
    show ?thesis
    proof (cases "page_step (int n) m a (page_value client opts (int n))")
      case (Continue a')
      with a show ?thesis by simp
    next
      case (Return v)
      with a have "\<exists>k<Suc n. \<exists>a. arrives client opts m k = Some a
          \<and> (\<forall>a'. page_step (int k) m a (page_value client opts (int k)) \<noteq> Continue a')"
        by (intro exI[of _ n]) auto
      then show ?thesis ..
    next
      case (Break b)
      with a have "\<exists>k<Suc n. \<exists>a. arrives client opts m k = Some a
          \<and> (\<forall>a'. page_step (int k) m a (page_value client opts (int k)) \<noteq> Continue a')"
        by (intro exI[of _ n]) auto
      then show ?thesis ..
    qed
  next
    assume "\<exists>k<n. \<exists>a. arrives client opts m k = Some a
          \<and> (\<forall>a'. page_step (int k) m a (page_value client opts (int k)) \<noteq> Continue a')"
    then have "\<exists>k<Suc n. \<exists>a. arrives client opts m k = Some a
          \<and> (\<forall>a'. page_step (int k) m a (page_value client opts (int k)) \<noteq> Continue a')"
      using less_Suc_eq by blast
    then show ?thesis ..
  qed
qed

lemma loop_arrived_end:
  "arrives client opts m n = Some a \<Longrightarrow>
   pages_loop client opts m (map int [0..<n]) initial_results sent =
     (json_of a, sent @ map (\<lambda>i. page_request_of opts (int i)) [0..<n])"
  using arrives_loop [of client opts m n a n sent] by simp

lemma loop_stopped_at:
  "arrives client opts m k = Some a \<Longrightarrow> k < n \<Longrightarrow>
   \<forall>a'. page_step (int k) m a (page_value client opts (int k)) \<noteq> Continue a' \<Longrightarrow>
   pages_loop client opts m (map int [0..<n]) initial_results sent =
     ((case page_step (int k) m a (page_value client opts (int k)) of
         Return v \<Rightarrow> v | Break a' \<Rightarrow> json_of a' | Continue a' \<Rightarrow> json_of a'),
      sent @ map (\<lambda>i. page_request_of opts (int i)) [0..<Suc k])"
  using arrives_loop [of client opts m k a n sent]
  by (auto simp: pages_loop_from split: step.splits)

text \<open>Merging one page.\<close>

lemma and_then_simps [simp]:
  "and_then (Inl e) f = Inl e"
  "and_then (Inr x) f = f x"
  by (simp_all add: and_then_def)

lemma and_then_eq_Inr:
  "and_then m f = Inr y \<longleftrightarrow> (\<exists>x. m = Inr x \<and> f x = Inr y)"
  by (cases m) auto

lemma merge_page_later:
  "page \<noteq> 0 \<Longrightarrow>
   merge_page page a p =
     (case merge_page page initial_results p of
        Inl e \<Rightarrow> Inl e
      | Inr d \<Rightarrow> Inr (a\<lparr> result_items := result_items a @ result_items d \<rparr>))"
  unfolding merge_page_def initial_results_def
  by (cases "py_in ''web'' p"; cases "py_getitem p ''web''")
     (auto simp: Let_def and_then_def split: sum.splits)

lemma merge_page_items:
  "merge_page page initial_results p = Inr d \<Longrightarrow> result_items d = page_items page p"
  by (simp add: page_items_def)

lemma set_update_subset: "set (AList.update k v al) \<subseteq> insert (k, v) (set al)"
  by (induction al) auto

lemma set_copy_items:
  "set (copy_items skip items target) \<subseteq> set target \<union> {kv \<in> set items. fst kv \<noteq> skip}"
  unfolding copy_items_def
proof (induction items arbitrary: target)
  case Nil
  then show ?case by simp
next
  case (Cons kv items)
  obtain k v where kv: "kv = (k, v)" by (cases kv)
  show ?case
  proof (cases "k = skip")
    case True
    with Cons.IH [of target] kv show ?thesis by auto
  next
    case False
    with Cons.IH [of "AList.update k v target"] set_update_subset [of k v target] kv
    show ?thesis by auto
  qed
qed

lemma merge_page_first:
  assumes "merge_page 0 initial_results p = Inr a0"
  shows "(\<forall>kv \<in> set (top_meta a0). fst kv \<noteq> ''web'' \<and> (\<exists>kvs. p = JObj kvs \<and> kv \<in> set kvs))
       \<and> (\<forall>kv \<in> set (web_meta a0). fst kv \<noteq> ''results''
             \<and> (\<exists>kvs web. p = JObj kvs \<and> map_of kvs ''web'' = Some (JObj web) \<and> kv \<in> set web))"
proof (cases "\<exists>kvs web. p = JObj kvs \<and> map_of kvs ''web'' = Some (JObj web) \<and> ''results'' \<in> fst ` set web")
  case True
  then obtain kvs web where p: "p = JObj kvs" "map_of kvs ''web'' = Some (JObj web)"
     "''results'' \<in> fst ` set web" by blast
  from p(2) have inw: "''web'' \<in> fst ` set kvs"
    by (metis map_of_eq_None_iff option.distinct(1))
  from assms p inw obtain new where
    a0: "a0 = \<lparr> result_items = new, web_meta = copy_items ''results'' web [], top_meta = copy_items ''web'' kvs [] \<rparr>"
    by (auto simp: merge_page_def initial_results_def and_then_eq_Inr Let_def split: option.splits if_splits)
  show ?thesis
    using set_copy_items [of "''web''" kvs "[]"] set_copy_items [of "''results''" web "[]"] p
    by (auto simp: a0)
next
  case False
  have "a0 = initial_results"
  proof (cases p)
    case (JObj kvs)
    show ?thesis
    proof (cases "map_of kvs ''web''")
      case None
      then have "''web'' \<notin> fst ` set kvs" by (simp add: map_of_eq_None_iff)
      with assms JObj show ?thesis by (simp add: merge_page_def)
    next
      case (Some w)
      then have inw: "''web'' \<in> fst ` set kvs"
        by (metis map_of_eq_None_iff option.distinct(1))
      show ?thesis
      proof (cases w)
        case (JObj web)
        with False Some \<open>p = JObj kvs\<close> have "''results'' \<notin> fst ` set web" by auto
        with assms \<open>p = JObj kvs\<close> Some JObj inw show ?thesis
          by (simp add: merge_page_def)
      qed (use assms \<open>p = JObj kvs\<close> Some inw in
            \<open>auto simp: merge_page_def and_then_eq_Inr split: if_splits\<close>)
    qed
  qed (use assms in \<open>auto simp: merge_page_def and_then_eq_Inr split: if_splits\<close>)
  then show ?thesis by (simp add: initial_results_def)
qed

text \<open>One iteration, by whether the page fails.\<close>

lemma py_in_error_envelope: "py_in ''error'' (error_envelope msg) = Inr True"
  by (simp add: error_envelope_def)

lemma page_step_fails_later:
  assumes "page_fails page p" "page \<noteq> 0"
  shows "page_step page m a p = Break a"
proof (cases "py_in ''error'' p")
  case (Inl e)
  then show ?thesis using assms(2) by (simp add: page_step_def page_body_def)
next
  case (Inr has_error)
  show ?thesis
  proof (cases has_error)
    case True
    with Inr assms(2) show ?thesis
      by (cases "py_getitem p ''error''") (simp_all add: page_step_def page_body_def)
  next
    case False
    with Inr assms(1) obtain e where "merge_page page initial_results p = Inl e"
      by (auto simp: page_fails_def split: sum.splits)
    then have "merge_page page a p = Inl e"
      using merge_page_later [OF assms(2), of a p] by simp
    with Inr False assms(2) show ?thesis
      by (simp add: page_step_def page_body_def)
  qed
qed

lemma page_step_fails_first:
  assumes "page_fails 0 p"
  shows "\<exists>v. page_step 0 m initial_results p = Return v \<and> py_in ''error'' v = Inr True"
proof (cases "py_in ''error'' p")
  case (Inl e)
  then show ?thesis by (simp add: page_step_def page_body_def py_in_error_envelope)
next
  case (Inr has_error)
  show ?thesis
  proof (cases has_error)
    case True
    with Inr show ?thesis
      by (cases "py_getitem p ''error''")
         (simp_all add: page_step_def page_body_def py_in_error_envelope)
  next
    case False
    with Inr assms obtain e where "merge_page 0 initial_results p = Inl e"
      by (auto simp: page_fails_def split: sum.splits)
    with Inr False show ?thesis
      by (simp add: page_step_def page_body_def py_in_error_envelope)
  qed
qed

lemma page_step_error_field_first:
  assumes "''error'' \<in> fst ` set kvs"
  shows "page_step 0 m a (JObj kvs) = Return (JObj kvs)"
proof -
  from assms obtain x where "map_of kvs ''error'' = Some x"
    by (metis map_of_eq_None_iff not_Some_eq)
  with assms show ?thesis
    by (simp add: page_step_def page_body_def)
qed

lemma not_fails_merge:
  assumes "\<not> page_fails page p"
  shows "py_in ''error'' p = Inr False" "\<exists>d. merge_page page initial_results p = Inr d"
  using assms by (auto simp: page_fails_def split: sum.splits bool.splits)

lemma page_step_ok_later:
  assumes "\<not> page_fails page p" "page \<noteq> 0"
  shows "page_step page m a p =
     (if m \<le> int (length (result_items a @ page_items page p))
      then Break (a\<lparr> result_items := py_slice_to m (result_items a @ page_items page p) \<rparr>)
      else Continue (a\<lparr> result_items := result_items a @ page_items page p \<rparr>))"
proof -
  from not_fails_merge [OF assms(1)] obtain d where
    e: "py_in ''error'' p = Inr False" and d: "merge_page page initial_results p = Inr d"
    by blast
  from d have "merge_page page a p = Inr (a\<lparr> result_items := result_items a @ page_items page p \<rparr>)"
    using merge_page_later [OF assms(2), of a p] by (simp add: page_items_def)
  with e show ?thesis
    by (simp add: page_step_def page_body_def)
qed

lemma page_step_ok_first:
  assumes "\<not> page_fails 0 p"
  shows "\<exists>a0. merge_page 0 initial_results p = Inr a0 \<and>
           page_step 0 m initial_results p =
             (if m \<le> int (length (result_items a0))
              then Break (a0\<lparr> result_items := py_slice_to m (result_items a0) \<rparr>)
              else Continue a0)"
proof -
  from not_fails_merge [OF assms] obtain d where
    e: "py_in ''error'' p = Inr False" and d: "merge_page 0 initial_results p = Inr d"
    by blast
  then show ?thesis
    by (simp add: page_step_def page_body_def)
qed

text \<open>What \<^verbatim>\<open>all_results\<close> holds on arrival at a page, and when the loop gets there.\<close>

lemma arrives_shape:
  assumes "arrives client opts m k = Some a" "1 \<le> k"
  shows "\<exists>a0. merge_page 0 initial_results (page_value client opts 0) = Inr a0
           \<and> \<not> page_fails 0 (page_value client opts 0)
           \<and> a = a0\<lparr> result_items :=
                      concat (map (\<lambda>j. page_items (int j) (page_value client opts (int j))) [0..<k]) \<rparr>
           \<and> int (length (result_items a)) < m"
  using assms
proof (induction k arbitrary: a)
  case 0
  then show ?case by simp
next
  case (Suc k)
  from Suc.prems(1) obtain b where b: "arrives client opts m k = Some b"
    and step: "page_step (int k) m b (page_value client opts (int k)) = Continue a"
    by (auto split: option.splits step.splits)
  show ?case
  proof (cases "k = 0")
    case True
    with b have b0: "b = initial_results" by simp
    have nf: "\<not> page_fails 0 (page_value client opts 0)"
      using page_step_fails_first [of "page_value client opts 0" m] step True b0 by auto
    from page_step_ok_first [OF nf, of m] step True b0 obtain a0 where
      "merge_page 0 initial_results (page_value client opts 0) = Inr a0"
      "a = a0" "\<not> m \<le> int (length (result_items a0))"
      by (auto split: if_splits)
    with nf True show ?thesis
      using merge_page_items [of 0 "page_value client opts 0" a0] by simp
  next
    case False
    then have k1: "1 \<le> k" by simp
    from Suc.IH [OF b k1] obtain a0 where
      a0: "merge_page 0 initial_results (page_value client opts 0) = Inr a0"
      and nf0: "\<not> page_fails 0 (page_value client opts 0)"
      and bb: "b = a0\<lparr> result_items :=
                      concat (map (\<lambda>j. page_items (int j) (page_value client opts (int j))) [0..<k]) \<rparr>"
      by blast
    from False have kn: "int k \<noteq> 0" by simp
    have nf: "\<not> page_fails (int k) (page_value client opts (int k))"
      using page_step_fails_later [of "int k" "page_value client opts (int k)" m b] step kn by auto
    from page_step_ok_later [OF nf kn, of m b] step have
      "a = b\<lparr> result_items := result_items b @ page_items (int k) (page_value client opts (int k)) \<rparr>"
      "\<not> m \<le> int (length (result_items b @ page_items (int k) (page_value client opts (int k))))"
      by (auto split: if_splits)
    with a0 nf0 bb show ?thesis by simp
  qed
qed

lemma arrives_if_pages_ok:
  assumes "\<forall>i<k. \<not> page_fails (int i) (page_value client opts (int i))"
      and "\<forall>i<k. int (length (concat (map (\<lambda>j. page_items (int j) (page_value client opts (int j)))
                                 [0..<Suc i]))) < m"
  shows "\<exists>a. arrives client opts m k = Some a"
  using assms
proof (induction k)
  case 0
  then show ?case by simp
next
  case (Suc k)
  from Suc obtain b where b: "arrives client opts m k = Some b" by auto
  from Suc.prems have nf: "\<not> page_fails (int k) (page_value client opts (int k))"
    and cnt: "int (length (concat (map (\<lambda>j. page_items (int j) (page_value client opts (int j)))
                                 [0..<Suc k]))) < m"
    by simp_all
  show ?case
  proof (cases "k = 0")
    case True
    with b have b0: "b = initial_results" by simp
    from page_step_ok_first [of "page_value client opts 0" m] nf True obtain a0 where
      a0: "merge_page 0 initial_results (page_value client opts 0) = Inr a0"
      and st: "page_step 0 m initial_results (page_value client opts 0) =
             (if m \<le> int (length (result_items a0))
              then Break (a0\<lparr> result_items := py_slice_to m (result_items a0) \<rparr>)
              else Continue a0)"
      by auto
    from cnt True merge_page_items [OF a0] have "\<not> m \<le> int (length (result_items a0))" by simp
    with st b b0 True show ?thesis by simp
  next
    case False
    then have k1: "1 \<le> k" and kn: "int k \<noteq> 0" by simp_all
    from arrives_shape [OF b k1] have
      "result_items b = concat (map (\<lambda>j. page_items (int j) (page_value client opts (int j))) [0..<k])"
      by auto
    with cnt have "\<not> m \<le> int (length (result_items b @ page_items (int k) (page_value client opts (int k))))"
      by simp
    with page_step_ok_later [OF nf kn, of m b] b show ?thesis by simp
  qed
qed

lemma first_page_no_error_key:
  assumes "merge_page 0 initial_results p = Inr a0" "\<not> page_fails 0 p"
  shows "''error'' \<notin> fst ` set (top_meta a0)"
proof
  assume "''error'' \<in> fst ` set (top_meta a0)"
  then obtain kv where kv: "kv \<in> set (top_meta a0)" "fst kv = ''error''" by auto
  with merge_page_first [OF assms(1)] obtain kvs where "p = JObj kvs" "kv \<in> set kvs" by blast
  with kv(2) have "py_in ''error'' p = Inr True" by force
  with not_fails_merge(1) [OF assms(2)] show False by simp
qed

lemma json_of_no_error:
  "''error'' \<notin> fst ` set (top_meta a) \<Longrightarrow> py_in ''error'' (json_of a) = Inr False"
  by (simp add: json_of_def)

lemma web_results_of_json_of: "web_results_of (json_of a) = Inr (JArr (result_items a))"
  by (simp add: web_results_of_def json_of_def)

lemma num_pages_pos: "1 \<le> m \<Longrightarrow> 1 \<le> num_pages m"
  by (simp add: num_pages_def results_per_page_def) 

lemma num_pages_ceiling: "num_pages m = - ((- m) div 10)"
  unfolding num_pages_def results_per_page_def by presburger

text \<open>Every way the loop can end.\<close>

lemma swp_loop:
  "search_with_pagination client opts m sent =
     pages_loop client opts m (map int [0..<nat (num_pages m)]) initial_results sent"
  by (simp add: search_with_pagination_def py_range_def)

lemma page_value_failure:
  assumes "(\<exists>e. client (page_request_of opts page) = Inl e)
         \<or> (\<exists>response. client (page_request_of opts page) = Inr response \<and> status_code response \<noteq> 200)"
  shows "\<exists>msg. page_value client opts page
           = JObj [(''error'', JStr msg), (''web'', JObj [(''results'', JArr [])])]"
  using assms
  by (auto simp: page_value_def page_request_of_def fetch_search_results_def Let_def
                 error_envelope_def handle_fetch_exn_def)

lemma length_py_slice_to:
  "0 \<le> m \<Longrightarrow> int (length (py_slice_to m xs)) \<le> m"
  by (simp add: py_slice_to_def)

lemma length_py_slice_to_eq:
  "0 \<le> m \<Longrightarrow> m \<le> int (length xs) \<Longrightarrow> py_slice_to m xs = take (nat m) xs \<and> int (length (take (nat m) xs)) = m"
  by (simp add: py_slice_to_def)

lemma swp_outcomes:
  shows "(\<exists>a. arrives client opts m (nat (num_pages m)) = Some a
            \<and> search_with_pagination client opts m sent
                = (json_of a, sent @ map (\<lambda>i. page_request_of opts (int i)) [0..<nat (num_pages m)]))
       \<or> (\<exists>k a. k < nat (num_pages m) \<and> arrives client opts m k = Some a
            \<and> (\<forall>a'. page_step (int k) m a (page_value client opts (int k)) \<noteq> Continue a')
            \<and> search_with_pagination client opts m sent
                = ((case page_step (int k) m a (page_value client opts (int k)) of
                      Return v \<Rightarrow> v | Break a' \<Rightarrow> json_of a' | Continue a' \<Rightarrow> json_of a'),
                   sent @ map (\<lambda>i. page_request_of opts (int i)) [0..<Suc k]))"
  using run_cases [of client opts m "nat (num_pages m)"]
proof
  assume "\<exists>a. arrives client opts m (nat (num_pages m)) = Some a"
  then obtain a where a: "arrives client opts m (nat (num_pages m)) = Some a" ..
  from loop_arrived_end [OF a, of sent] a show ?thesis by (simp add: swp_loop)
next
  assume "\<exists>k<nat (num_pages m). \<exists>a. arrives client opts m k = Some a
          \<and> (\<forall>a'. page_step (int k) m a (page_value client opts (int k)) \<noteq> Continue a')"
  then obtain k a where k: "k < nat (num_pages m)" and a: "arrives client opts m k = Some a"
    and st: "\<forall>a'. page_step (int k) m a (page_value client opts (int k)) \<noteq> Continue a'"
    by blast
  from loop_stopped_at [OF a k st, of sent] k a st show ?thesis
    by (auto simp: swp_loop)
qed

lemma merge_page_ok_later:
  assumes "\<not> page_fails page p" "page \<noteq> 0"
  shows "merge_page page a p = Inr (a\<lparr> result_items := result_items a @ page_items page p \<rparr>)"
proof -
  from not_fails_merge(2) [OF assms(1)] obtain d where "merge_page page initial_results p = Inr d" ..
  then show ?thesis
    using merge_page_later [OF assms(2), of a p] by (simp add: page_items_def)
qed

lemma page_step_ok:
  assumes "\<not> page_fails page p" "merge_page page a p = Inr a1"
  shows "page_step page m a p =
           (if m \<le> int (length (result_items a1))
            then Break (a1\<lparr> result_items := py_slice_to m (result_items a1) \<rparr>)
            else Continue a1)"
  using not_fails_merge(1) [OF assms(1)] assms(2)
  by (simp add: page_step_def page_body_def)

lemma stop_reason:
  assumes "arrives client opts m k = Some a"
      and "\<forall>a'. page_step (int k) m a (page_value client opts (int k)) \<noteq> Continue a'"
  shows "(k = 0 \<and> page_fails 0 (page_value client opts 0)
            \<and> (\<exists>v. page_step (int k) m a (page_value client opts (int k)) = Return v
                    \<and> py_in ''error'' v = Inr True))
       \<or> (1 \<le> k \<and> page_fails (int k) (page_value client opts (int k))
            \<and> page_step (int k) m a (page_value client opts (int k)) = Break a)
       \<or> (\<not> page_fails (int k) (page_value client opts (int k))
            \<and> (\<exists>a1. merge_page (int k) a (page_value client opts (int k)) = Inr a1
                  \<and> m \<le> int (length (result_items a1))
                  \<and> page_step (int k) m a (page_value client opts (int k))
                       = Break (a1\<lparr> result_items := py_slice_to m (result_items a1) \<rparr>)))"
proof (cases "page_fails (int k) (page_value client opts (int k))")
  case True
  show ?thesis
  proof (cases "k = 0")
    case k0: True
    with assms(1) have "a = initial_results" by simp
    with page_step_fails_first [of "page_value client opts 0" m] True k0 show ?thesis by simp
  next
    case False
    then have "int k \<noteq> 0" by simp
    from page_step_fails_later [OF True this, of m a] False True show ?thesis by simp
  qed
next
  case False
  have "\<exists>a1. merge_page (int k) a (page_value client opts (int k)) = Inr a1"
  proof (cases "k = 0")
    case True
    with assms(1) have "a = initial_results" by simp
    with not_fails_merge(2) [OF False] show ?thesis by simp
  next
    case k: False
    then have "int k \<noteq> 0" by simp
    from merge_page_ok_later [OF False this, of a] show ?thesis by simp
  qed
  then obtain a1 where a1: "merge_page (int k) a (page_value client opts (int k)) = Inr a1" ..
  from page_step_ok [OF False a1, of m] assms(2) False a1 show ?thesis
    by (auto split: if_splits)
qed

lemma json_of_fields:
  "json_of a = JObj ((''web'', JObj ((''results'', JArr (result_items a)) # web_meta a)) # top_meta a)"
  by (simp add: json_of_def)

lemma concat_upt_prefix:
  assumes "k \<le> n"
  shows "prefix (concat (map f [0..<k])) (concat (map f [0..<n]))"
proof -
  from assms have "[0..<n] = [0..<k] @ [k..<n]"
    by (metis le_add_diff_inverse upt_add_eq_append zero_le)
  then have "concat (map f [0..<n]) = concat (map f [0..<k]) @ concat (map f [k..<n])"
    by simp
  then show ?thesis by (simp add: prefix_def)
qed

lemma take_concat_upt_prefix:
  assumes "k \<le> n"
  shows "prefix (take j (concat (map f [0..<k]))) (concat (map f [0..<n]))"
  using take_is_prefix [of j "concat (map f [0..<k])"] concat_upt_prefix [OF assms, of f]
  by (rule prefix_order.trans)

lemma num_pages_is_ceiling: "num_pages max_results = \<lceil>real_of_int max_results / 10\<rceil>"
proof -
  have "\<lceil>real_of_int max_results / real_of_int 10\<rceil> = - (- max_results div 10)"
    by (rule ceiling_divide_eq_div)
  then show ?thesis by (simp add: num_pages_ceiling)
qed

lemma page_request_params:
  "map_of (req_params (page_request_of opts i)) ''count'' = Some (JNum 10)"
  "map_of (req_params (page_request_of opts i)) ''offset'' = Some (JNum i)"
  by (simp_all add: page_request_of_def search_request_def results_per_page_def)

text \<open>The example inputs, evaluated.\<close>

lemma example_page_value_0: "page_value example_client example_opts 0 = example_page"
  by (simp add: page_value_def fetch_search_results_def search_request_def example_client_def Let_def)

lemma example_merge_0:
  "merge_page 0 initial_results example_page
     = Inr \<lparr> result_items = [JObj [(''title'', JStr ''A'')], JObj [(''title'', JStr ''B'')]],
             web_meta = [(''family_friendly'', JBool True)],
             top_meta = [(''type'', JStr ''search'')] \<rparr>"
  by (simp add: merge_page_def example_page_def initial_results_def copy_items_def and_then_def)

lemma example_fails_0: "\<not> page_fails 0 example_page"
proof -
  have "py_in ''error'' example_page = Inr False"
    by (simp add: example_page_def)
  then show ?thesis
    by (simp add: page_fails_def example_merge_0)
qed

lemma num_pages_15: "num_pages 15 = 2" "num_pages 1 = 1" "num_pages 3 = 1" "num_pages (-1) = 0"
  by (simp_all add: num_pages_def results_per_page_def)

text \<open>What a page adds, in terms of its own \<^verbatim>\<open>["web"]["results"]\<close>; what the first page
  copies.\<close>

lemma web_results_of_Inr_iff:
  "web_results_of p = Inr r \<longleftrightarrow>
     (\<exists>kvs web. p = JObj kvs \<and> map_of kvs ''web'' = Some (JObj web) \<and> map_of web ''results'' = Some r)"
proof (cases p)
  case (JObj kvs)
  show ?thesis
  proof (cases "map_of kvs ''web''")
    case None
    with JObj show ?thesis by (simp add: web_results_of_def)
  next
    case (Some w)
    with JObj show ?thesis
      by (cases w) (auto simp: web_results_of_def split: option.splits)
  qed
qed (simp_all add: web_results_of_def)

lemma web_items_list: "web_results_of p = Inr (JArr xs) \<Longrightarrow> web_items p = xs"
  by (simp add: web_items_def)

lemma merge_page_first_cases:
  assumes "merge_page 0 initial_results p = Inr a0"
  shows "(\<exists>kvs web r new. p = JObj kvs \<and> map_of kvs ''web'' = Some (JObj web)
            \<and> map_of web ''results'' = Some r \<and> py_iter r = Inr new
            \<and> a0 = \<lparr> result_items = new, web_meta = copy_items ''results'' web [],
                     top_meta = copy_items ''web'' kvs [] \<rparr>)
       \<or> ((\<exists>e. web_results_of p = Inl e) \<and> a0 = initial_results)"
proof (cases "web_results_of p")
  case (Inr r)
  then obtain kvs web where p: "p = JObj kvs" "map_of kvs ''web'' = Some (JObj web)"
    "map_of web ''results'' = Some r"
    by (auto simp: web_results_of_Inr_iff)
  from p(2) have inw: "''web'' \<in> fst ` set kvs"
    by (metis map_of_eq_None_iff option.distinct(1))
  from p(3) have inr: "''results'' \<in> fst ` set web"
    by (metis map_of_eq_None_iff option.distinct(1))
  from assms p inw inr obtain new where "py_iter r = Inr new"
    "a0 = \<lparr> result_items = new, web_meta = copy_items ''results'' web [],
            top_meta = copy_items ''web'' kvs [] \<rparr>"
    by (auto simp: merge_page_def initial_results_def and_then_eq_Inr Let_def)
  with p show ?thesis by blast
next
  case (Inl e)
  have no: "\<not> (\<exists>kvs web. p = JObj kvs \<and> map_of kvs ''web'' = Some (JObj web)
                 \<and> ''results'' \<in> fst ` set web)"
  proof
    assume "\<exists>kvs web. p = JObj kvs \<and> map_of kvs ''web'' = Some (JObj web)
                 \<and> ''results'' \<in> fst ` set web"
    then obtain kvs web where "p = JObj kvs" "map_of kvs ''web'' = Some (JObj web)"
      "''results'' \<in> fst ` set web" by blast
    moreover then obtain r where "map_of web ''results'' = Some r"
      by (metis map_of_eq_None_iff not_Some_eq)
    ultimately have "web_results_of p = Inr r" by (auto simp: web_results_of_Inr_iff)
    with Inl show False by simp
  qed
  have "a0 = initial_results"
  proof (cases p)
    case (JObj kvs)
    show ?thesis
    proof (cases "map_of kvs ''web''")
      case None
      then have "''web'' \<notin> fst ` set kvs" by (simp add: map_of_eq_None_iff)
      with assms JObj show ?thesis by (simp add: merge_page_def)
    next
      case (Some w)
      then have inw: "''web'' \<in> fst ` set kvs"
        by (metis map_of_eq_None_iff option.distinct(1))
      show ?thesis
      proof (cases w)
        case (JObj web)
        with no Some \<open>p = JObj kvs\<close> have "''results'' \<notin> fst ` set web" by auto
        with assms \<open>p = JObj kvs\<close> Some JObj inw show ?thesis
          by (simp add: merge_page_def)
      qed (use assms \<open>p = JObj kvs\<close> Some inw in
            \<open>auto simp: merge_page_def and_then_eq_Inr split: if_splits\<close>)
    qed
  qed (use assms in \<open>auto simp: merge_page_def and_then_eq_Inr split: if_splits\<close>)
  with Inl show ?thesis by blast
qed

lemma page_items_web_items:
  assumes "\<not> page_fails page p"
  shows "page_items page p = web_items p"
proof (cases "page = 0")
  case True
  from not_fails_merge(2) [OF assms] True obtain a0
    where a0: "merge_page 0 initial_results p = Inr a0" by auto
  from merge_page_first_cases [OF a0] show ?thesis
  proof (elim disjE exE conjE)
    fix kvs web r new
    assume "p = JObj kvs" "map_of kvs ''web'' = Some (JObj web)" "map_of web ''results'' = Some r"
      "py_iter r = Inr new"
      "a0 = \<lparr> result_items = new, web_meta = copy_items ''results'' web [],
              top_meta = copy_items ''web'' kvs [] \<rparr>"
    moreover then have "web_results_of p = Inr r" by (auto simp: web_results_of_Inr_iff)
    ultimately show ?thesis using a0 True by (simp add: page_items_def web_items_def)
  next
    fix e
    assume "web_results_of p = Inl e" "a0 = initial_results"
    with a0 True show ?thesis by (simp add: page_items_def web_items_def initial_results_def)
  qed
next
  case False
  from not_fails_merge(2) [OF assms] obtain d
    where d: "merge_page page initial_results p = Inr d" ..
  show ?thesis
  proof (cases "web_results_of p")
    case (Inr r)
    then obtain kvs web where p: "p = JObj kvs" "map_of kvs ''web'' = Some (JObj web)"
      "map_of web ''results'' = Some r"
      by (auto simp: web_results_of_Inr_iff)
    from p(2) have inw: "''web'' \<in> fst ` set kvs"
      by (metis map_of_eq_None_iff option.distinct(1))
    from p(3) have inr: "''results'' \<in> fst ` set web"
      by (metis map_of_eq_None_iff option.distinct(1))
    from d p inw inr False obtain new where "py_iter r = Inr new" "result_items d = new"
      by (auto simp: merge_page_def initial_results_def and_then_eq_Inr Let_def)
    with d Inr show ?thesis by (simp add: page_items_def web_items_def)
  next
    case (Inl e)
    have "d = initial_results"
    proof (cases p)
      case (JObj kvs)
      show ?thesis
      proof (cases "map_of kvs ''web''")
        case None
        then have "''web'' \<notin> fst ` set kvs" by (simp add: map_of_eq_None_iff)
        with d JObj show ?thesis by (simp add: merge_page_def)
      next
        case (Some w)
        then have inw: "''web'' \<in> fst ` set kvs"
          by (metis map_of_eq_None_iff option.distinct(1))
        show ?thesis
        proof (cases w)
          case (JObj web)
          have "''results'' \<notin> fst ` set web"
          proof
            assume "''results'' \<in> fst ` set web"
            then obtain r where "map_of web ''results'' = Some r"
              by (metis map_of_eq_None_iff not_Some_eq)
            with \<open>p = JObj kvs\<close> Some JObj have "web_results_of p = Inr r"
              by (auto simp: web_results_of_Inr_iff)
            with Inl show False by simp
          qed
          with d \<open>p = JObj kvs\<close> Some JObj inw show ?thesis
            by (simp add: merge_page_def)
        qed (use d \<open>p = JObj kvs\<close> Some inw in
              \<open>auto simp: merge_page_def and_then_eq_Inr split: if_splits\<close>)
      qed
    qed (use d in \<open>auto simp: merge_page_def and_then_eq_Inr split: if_splits\<close>)
    with d Inl show ?thesis by (simp add: page_items_def web_items_def initial_results_def)
  qed
qed

lemma update_fresh: "k \<notin> fst ` set al \<Longrightarrow> AList.update k v al = al @ [(k, v)]"
  by (induction al) auto

lemma copy_items_distinct:
  assumes "distinct (map fst items)" "fst ` set items \<inter> fst ` set target = {}"
  shows "copy_items skip items target = target @ filter (\<lambda>kv. fst kv \<noteq> skip) items"
  using assms unfolding copy_items_def
proof (induction items arbitrary: target)
  case Nil
  then show ?case by simp
next
  case (Cons kv items)
  obtain k v where kv: "kv = (k, v)" by (cases kv)
  from Cons.prems kv have fresh: "k \<notin> fst ` set target" and d: "distinct (map fst items)"
    and kni: "k \<notin> fst ` set items" and disj: "fst ` set items \<inter> fst ` set target = {}"
    by auto
  show ?case
  proof (cases "k = skip")
    case True
    with Cons.IH [OF d disj] kv show ?thesis by simp
  next
    case False
    have "fst ` set items \<inter> fst ` set (target @ [(k, v)]) = {}"
      using disj kni by auto
    from Cons.IH [OF d this] False kv fresh show ?thesis
      by (simp add: update_fresh)
  qed
qed

lemma arrives_pages_ok:
  "arrives client opts m k = Some a \<Longrightarrow>
   \<forall>i<k. \<not> page_fails (int i) (page_value client opts (int i))"
proof (induction k arbitrary: a)
  case 0
  then show ?case by simp
next
  case (Suc k)
  from Suc.prems obtain b where b: "arrives client opts m k = Some b"
    and step: "page_step (int k) m b (page_value client opts (int k)) = Continue a"
    by (auto split: option.splits step.splits)
  have "\<not> page_fails (int k) (page_value client opts (int k))"
  proof (cases "k = 0")
    case True
    with b have "b = initial_results" by simp
    with page_step_fails_first [of "page_value client opts 0" m] step True show ?thesis by auto
  next
    case False
    then have "int k \<noteq> 0" by simp
    with page_step_fails_later [of "int k" "page_value client opts (int k)" m b] step
    show ?thesis by auto
  qed
  with Suc.IH [OF b] show ?case by (auto simp: less_Suc_eq)
qed

lemma items_upto:
  assumes "\<forall>i<k. \<not> page_fails (int i) (page_value client opts (int i))" "j \<le> k"
  shows "concat (map (\<lambda>i. page_items (int i) (page_value client opts (int i))) [0..<j])
       = concat (map (\<lambda>i. web_items (page_value client opts (int i))) [0..<j])"
proof -
  have "map (\<lambda>i. page_items (int i) (page_value client opts (int i))) [0..<j]
      = map (\<lambda>i. web_items (page_value client opts (int i))) [0..<j]"
    using assms by (intro map_cong) (auto simp: page_items_web_items)
  then show ?thesis by (rule arg_cong [of _ _ concat])
qed

lemma later_page_failure_run:
  assumes "1 \<le> k" and "int k < num_pages max_results"
      and "arrives client opts max_results k = Some a"
      and "page_fails (int k) (page_value client opts (int k))"
  shows "\<exists>a0. merge_page 0 initial_results (page_value client opts 0) = Inr a0
          \<and> a = a0\<lparr> result_items :=
                    concat (map (\<lambda>j. page_items (int j) (page_value client opts (int j))) [0..<k]) \<rparr>
          \<and> search_with_pagination client opts max_results sent
              = (json_of a, sent @ map (\<lambda>i. page_request_of opts (int i)) [0..<Suc k])
          \<and> py_in ''error'' (json_of a) = Inr False"
proof -
  from arrives_shape [OF assms(3) assms(1)] obtain a0 where
    a0: "merge_page 0 initial_results (page_value client opts 0) = Inr a0"
    and nf0: "\<not> page_fails 0 (page_value client opts 0)"
    and aa: "a = a0\<lparr> result_items :=
                concat (map (\<lambda>j. page_items (int j) (page_value client opts (int j))) [0..<k]) \<rparr>"
    by blast
  from assms(1) have kn: "int k \<noteq> 0" by simp
  have step: "page_step (int k) max_results a (page_value client opts (int k)) = Break a"
    by (rule page_step_fails_later [OF assms(4) kn])
  from assms(2) have lt: "k < nat (num_pages max_results)" by simp
  have res: "search_with_pagination client opts max_results sent
               = (json_of a, sent @ map (\<lambda>i. page_request_of opts (int i)) [0..<Suc k])"
    using loop_stopped_at [OF assms(3) lt, of sent] step by (simp add: swp_loop)
  have "''error'' \<notin> fst ` set (top_meta a)"
    using first_page_no_error_key [OF a0 nf0] aa by simp
  then have "py_in ''error'' (json_of a) = Inr False" by (rule json_of_no_error)
  with a0 aa res show ?thesis by blast
qed

lemma first_page_ok_run:
  assumes "1 \<le> max_results"
      and "\<not> page_fails 0 (page_value client opts 0)"
  shows "\<exists>a0 items.
           merge_page 0 initial_results (page_value client opts 0) = Inr a0
         \<and> fst (search_with_pagination client opts max_results sent)
             = json_of (a0\<lparr> result_items := items \<rparr>)
         \<and> prefix items
             (concat (map (\<lambda>j. web_items (page_value client opts (int j)))
                        [0..<nat (num_pages max_results)]))"
proof -
  let ?items = "\<lambda>j. page_items (int j) (page_value client opts (int j))"
  let ?web = "\<lambda>j. web_items (page_value client opts (int j))"
  let ?n = "nat (num_pages max_results)"
  from not_fails_merge(2) [OF assms(2)] obtain a0
    where a0: "merge_page 0 initial_results (page_value client opts 0) = Inr a0" ..
  from assms(1) have m0: "0 \<le> max_results" by simp
  have "\<exists>items. fst (search_with_pagination client opts max_results sent)
                  = json_of (a0\<lparr> result_items := items \<rparr>)
               \<and> prefix items (concat (map ?web [0..<?n]))"
    using swp_outcomes [of client opts max_results sent]
  proof
    assume "\<exists>a. arrives client opts max_results ?n = Some a
            \<and> search_with_pagination client opts max_results sent
                = (json_of a, sent @ map (\<lambda>i. page_request_of opts (int i)) [0..<?n])"
    then obtain a where a: "arrives client opts max_results ?n = Some a"
      and res: "fst (search_with_pagination client opts max_results sent) = json_of a"
      by auto
    from assms(1) have "1 \<le> ?n" using num_pages_pos [of max_results] by simp
    from arrives_shape [OF a this] a0 have "a = a0\<lparr> result_items := concat (map ?items [0..<?n]) \<rparr>"
      by auto
    moreover have "concat (map ?items [0..<?n]) = concat (map ?web [0..<?n])"
      by (rule items_upto [OF arrives_pages_ok [OF a]]) simp
    ultimately show ?thesis using res by auto
  next
    assume "\<exists>k a. k < ?n \<and> arrives client opts max_results k = Some a
            \<and> (\<forall>a'. page_step (int k) max_results a (page_value client opts (int k)) \<noteq> Continue a')
            \<and> search_with_pagination client opts max_results sent
                = ((case page_step (int k) max_results a (page_value client opts (int k)) of
                      Return v \<Rightarrow> v | Break a' \<Rightarrow> json_of a' | Continue a' \<Rightarrow> json_of a'),
                   sent @ map (\<lambda>i. page_request_of opts (int i)) [0..<Suc k])"
    then obtain k a where kn: "k < ?n" and a: "arrives client opts max_results k = Some a"
      and st: "\<forall>a'. page_step (int k) max_results a (page_value client opts (int k)) \<noteq> Continue a'"
      and res: "fst (search_with_pagination client opts max_results sent)
                = (case page_step (int k) max_results a (page_value client opts (int k)) of
                      Return v \<Rightarrow> v | Break a' \<Rightarrow> json_of a' | Continue a' \<Rightarrow> json_of a')"
      by auto
    have shape: "a = a0\<lparr> result_items := concat (map ?items [0..<k]) \<rparr>" if "1 \<le> k"
      using arrives_shape [OF a that] a0 by auto
    note ok = arrives_pages_ok [OF a]
    from stop_reason [OF a st] show ?thesis
    proof (elim disjE conjE exE)
      assume "page_fails 0 (page_value client opts 0)"
      with assms(2) show ?thesis by simp
    next
      assume k1: "1 \<le> k"
        and "page_step (int k) max_results a (page_value client opts (int k)) = Break a"
      with res shape [OF k1] have "fst (search_with_pagination client opts max_results sent)
          = json_of (a0\<lparr> result_items := concat (map ?items [0..<k]) \<rparr>)" by simp
      moreover have "concat (map ?items [0..<k]) = concat (map ?web [0..<k])"
        by (rule items_upto [OF ok]) simp
      moreover from kn have "prefix (concat (map ?web [0..<k])) (concat (map ?web [0..<?n]))"
        by (intro concat_upt_prefix) simp
      ultimately show ?thesis by auto
    next
      fix a1
      assume nf: "\<not> page_fails (int k) (page_value client opts (int k))"
        and a1: "merge_page (int k) a (page_value client opts (int k)) = Inr a1"
        and full: "max_results \<le> int (length (result_items a1))"
        and step: "page_step (int k) max_results a (page_value client opts (int k))
                = Break (a1\<lparr> result_items := py_slice_to max_results (result_items a1) \<rparr>)"
      have a1_eq: "a1 = a0\<lparr> result_items := concat (map ?items [0..<Suc k]) \<rparr>"
      proof (cases "k = 0")
        case True
        with a have "a = initial_results" by simp
        with a1 a0 True have "a1 = a0" by simp
        with True merge_page_items [OF a0] show ?thesis by simp
      next
        case False
        then have k1: "1 \<le> k" and kz: "int k \<noteq> 0" by simp_all
        from merge_page_ok_later [OF nf kz, of a] a1 shape [OF k1] show ?thesis by simp
      qed
      from ok nf have ok': "\<forall>i<Suc k. \<not> page_fails (int i) (page_value client opts (int i))"
        by (auto simp: less_Suc_eq)
      have web: "concat (map ?items [0..<Suc k]) = concat (map ?web [0..<Suc k])"
        by (rule items_upto [OF ok']) simp
      from length_py_slice_to_eq [OF m0 full]
      have "py_slice_to max_results (result_items a1) = take (nat max_results) (result_items a1)"
        by simp
      with res step a1_eq web have "fst (search_with_pagination client opts max_results sent)
          = json_of (a0\<lparr> result_items := take (nat max_results) (concat (map ?web [0..<Suc k])) \<rparr>)"
        by simp
      moreover from kn have "prefix (take (nat max_results) (concat (map ?web [0..<Suc k])))
                                (concat (map ?web [0..<?n]))"
        by (intro take_concat_upt_prefix) simp
      ultimately show ?thesis by blast
    qed
  qed
  with a0 show ?thesis by blast
qed

lemma merge_page_first_copied:
  assumes "merge_page 0 initial_results p = Inr a0"
  shows "(\<forall>kvs web r. p = JObj kvs \<and> map_of kvs ''web'' = Some (JObj web)
              \<and> map_of web ''results'' = Some r
              \<and> distinct (map fst kvs) \<and> distinct (map fst web)
            \<longrightarrow> top_meta a0 = filter (\<lambda>kv. fst kv \<noteq> ''web'') kvs
              \<and> web_meta a0 = filter (\<lambda>kv. fst kv \<noteq> ''results'') web)
       \<and> ((\<exists>e. web_results_of p = Inl e) \<longrightarrow> top_meta a0 = [] \<and> web_meta a0 = [])"
  using merge_page_first_cases [OF assms]
proof (elim disjE exE conjE)
  fix kvs web r new
  assume p: "p = JObj kvs" "map_of kvs ''web'' = Some (JObj web)" "map_of web ''results'' = Some r"
    and a0: "a0 = \<lparr> result_items = new, web_meta = copy_items ''results'' web [],
                   top_meta = copy_items ''web'' kvs [] \<rparr>"
  from p have "web_results_of p = Inr r" by (auto simp: web_results_of_Inr_iff)
  then have no: "\<not> (\<exists>e. web_results_of p = Inl e)" by simp
  have "top_meta a0 = filter (\<lambda>kv. fst kv \<noteq> ''web'') kvs'
      \<and> web_meta a0 = filter (\<lambda>kv. fst kv \<noteq> ''results'') web'"
    if "p = JObj kvs'" "map_of kvs' ''web'' = Some (JObj web')"
       "distinct (map fst kvs')" "distinct (map fst web')" for kvs' web'
  proof -
    from that p have "kvs' = kvs" "web' = web" by simp_all
    with that a0 show ?thesis
      using copy_items_distinct [of kvs "[]" "''web''"] copy_items_distinct [of web "[]" "''results''"]
      by simp
  qed
  with no show ?thesis by blast
next
  fix e
  assume e: "web_results_of p = Inl e" and a0: "a0 = initial_results"
  have "\<not> (\<exists>kvs web r. p = JObj kvs \<and> map_of kvs ''web'' = Some (JObj web)
              \<and> map_of web ''results'' = Some r)"
  proof
    assume "\<exists>kvs web r. p = JObj kvs \<and> map_of kvs ''web'' = Some (JObj web)
              \<and> map_of web ''results'' = Some r"
    then obtain r where "web_results_of p = Inr r"
      using web_results_of_Inr_iff by blast
    with e show False by simp
  qed
  with a0 show ?thesis by (auto simp: initial_results_def)
qed

lemma two_page_value_0: "page_value two_page_client example_opts 0 = example_page"
  by (simp add: page_value_def fetch_search_results_def search_request_def two_page_client_def Let_def)

lemma two_page_value_1: "page_value two_page_client example_opts 1 = second_page"
  by (simp add: page_value_def fetch_search_results_def search_request_def two_page_client_def Let_def)

lemma two_page_value_2:
  "page_value two_page_client example_opts 2
     = error_envelope ''Brave API error: 500 - Internal Server Error''"
  by (simp add: page_value_def fetch_search_results_def search_request_def two_page_client_def Let_def
                str_int_def str_nat.simps)

lemma second_page_ok: "\<not> page_fails 1 second_page"
proof -
  have "py_in ''error'' second_page = Inr False"
    by (simp add: second_page_def)
  moreover have "\<exists>d. merge_page 1 initial_results second_page = Inr d"
    by (simp add: merge_page_def second_page_def)
  ultimately show ?thesis
    by (auto simp: page_fails_def)
qed

lemma example_fails_2: "page_fails 2 (error_envelope msg)"
  by (simp add: page_fails_def error_envelope_def)

lemma example_web_items:
  "web_items example_page = [JObj [(''title'', JStr ''A'')], JObj [(''title'', JStr ''B'')]]"
  "web_items second_page = [JObj [(''title'', JStr ''C'')]]"
  by (simp_all add: web_items_def web_results_of_def example_page_def second_page_def)

lemma web_items_error_envelope: "web_items (error_envelope msg) = []"
  by (simp add: web_items_def web_results_of_def error_envelope_def)

lemma num_pages_25: "num_pages 25 = 3"
  by (simp add: num_pages_def results_per_page_def)

lemma bare_page_value_0: "page_value bare_client example_opts 0 = bare_page"
  by (simp add: page_value_def fetch_search_results_def bare_client_def Let_def)

lemma bare_page_ok: "\<not> page_fails 0 bare_page"
  by (simp add: page_fails_def merge_page_def bare_page_def)

subsection \<open>search\_with\_pagination: the claims\<close>

text \<open>
  Claim C2. When page 0 is fetched (\<^verbatim>\<open>max_results \<ge> 1\<close>) and yields an error, that is, the
  value \<^verbatim>\<open>fetch_search_results\<close> returns for it is a dictionary with an \<^verbatim>\<open>"error"\<close> key, or
  the HTTP call raised or answered with a status other than 200 (which makes
  \<^verbatim>\<open>fetch_search_results\<close> return such a dictionary), then \<^verbatim>\<open>search_with_pagination\<close>
  returns exactly that value; nothing is accumulated and only the request of page 0 is sent.
\<close>

theorem C2_first_page_error_returned:
  assumes "1 \<le> max_results"
      and "(\<exists>kvs. page_value client opts 0 = JObj kvs \<and> ''error'' \<in> fst ` set kvs)
         \<or> (\<exists>e. client (page_request_of opts 0) = Inl e)
         \<or> (\<exists>response. client (page_request_of opts 0) = Inr response \<and> status_code response \<noteq> 200)"
  shows "search_with_pagination client opts max_results sent
           = (page_value client opts 0, sent @ [page_request_of opts 0])"
proof -
  from assms(2) page_value_failure [of client opts 0]
  obtain kvs where p: "page_value client opts 0 = JObj kvs" "''error'' \<in> fst ` set kvs"
    by fastforce
  have step: "page_step 0 max_results initial_results (page_value client opts 0)
                = Return (page_value client opts 0)"
    using page_step_error_field_first [OF p(2)] p(1) by simp
  from assms(1) have n: "0 < nat (num_pages max_results)"
    using num_pages_pos [of max_results] by simp
  show ?thesis
    using loop_stopped_at [of client opts max_results 0 initial_results "nat (num_pages max_results)" sent]
          step n
    by (simp add: swp_loop)
qed

theorem C2_first_page_error_returned_witness:
  "(1::int) \<le> 3
   \<and> failing_client (page_request_of example_opts 0) = Inl (RequestError ''connection refused'')
   \<and> search_with_pagination failing_client example_opts 3 []
       = (error_envelope ''Request error: connection refused'', [page_request_of example_opts 0])"
  using C2_first_page_error_returned [of 3 failing_client example_opts "[]"]
  by (simp add: failing_client_def page_value_def fetch_search_results_def handle_fetch_exn_def Let_def)

text \<open>
  Claim C3. Let page \<open>k \<ge> 1\<close> be the first page that fails, the loop getting as far as
  page \<open>k\<close>: no earlier page fails, and after none of them the accumulated count has
  reached \<^verbatim>\<open>max_results\<close>. Then the loop stops at page \<open>k\<close>: the requests sent are those of
  pages \<open>0..k\<close>. The list under \<^verbatim>\<open>["web"]["results"]\<close> of the returned value is the lists
  \<^verbatim>\<open>page_results["web"]["results"]\<close> of pages \<open>0..k-1\<close> put one after the other
  (\<open>web_items\<close>, see \<open>web_items_list\<close>; a page without that entry adds nothing). The returned value has no
  \<^verbatim>\<open>"error"\<close> key; it is \<^verbatim>\<open>all_results\<close> as page 0 left it, with that list.
\<close>

theorem C3_later_page_failure:
  assumes "1 \<le> k" and "int k < num_pages max_results"
      and "\<forall>i<k. \<not> page_fails (int i) (page_value client opts (int i))"
      and "\<forall>i<k. int (length (concat (map (\<lambda>j. web_items (page_value client opts (int j)))
                                 [0..<Suc i]))) < max_results"
      and "page_fails (int k) (page_value client opts (int k))"
  shows "snd (search_with_pagination client opts max_results sent)
           = sent @ map (\<lambda>i. page_request_of opts (int i)) [0..<Suc k]
       \<and> web_results_of (fst (search_with_pagination client opts max_results sent))
           = Inr (JArr (concat (map (\<lambda>j. web_items (page_value client opts (int j))) [0..<k])))
       \<and> py_in ''error'' (fst (search_with_pagination client opts max_results sent)) = Inr False
       \<and> (\<exists>a0. merge_page 0 initial_results (page_value client opts 0) = Inr a0
             \<and> fst (search_with_pagination client opts max_results sent)
                 = json_of (a0\<lparr> result_items :=
                      concat (map (\<lambda>j. web_items (page_value client opts (int j))) [0..<k]) \<rparr>))"
proof -
  have cnt: "\<forall>i<k. int (length (concat (map (\<lambda>j. page_items (int j) (page_value client opts (int j)))
                                 [0..<Suc i]))) < max_results"
  proof (intro allI impI)
    fix i assume "i < k"
    then have "Suc i \<le> k" by simp
    from items_upto [OF assms(3) this] assms(4) \<open>i < k\<close>
    show "int (length (concat (map (\<lambda>j. page_items (int j) (page_value client opts (int j)))
                                 [0..<Suc i]))) < max_results"
      by simp
  qed
  from arrives_if_pages_ok [OF assms(3) cnt] obtain a
    where a: "arrives client opts max_results k = Some a" ..
  from later_page_failure_run [OF assms(1,2) a assms(5), of sent] obtain a0 where
    a0: "merge_page 0 initial_results (page_value client opts 0) = Inr a0"
    and aa: "a = a0\<lparr> result_items :=
                concat (map (\<lambda>j. page_items (int j) (page_value client opts (int j))) [0..<k]) \<rparr>"
    and res: "search_with_pagination client opts max_results sent
              = (json_of a, sent @ map (\<lambda>i. page_request_of opts (int i)) [0..<Suc k])"
    and noerr: "py_in ''error'' (json_of a) = Inr False"
    by blast
  have items: "concat (map (\<lambda>j. page_items (int j) (page_value client opts (int j))) [0..<k])
             = concat (map (\<lambda>j. web_items (page_value client opts (int j))) [0..<k])"
    by (rule items_upto [OF assms(3)]) simp
  from aa items have aw: "a = a0\<lparr> result_items :=
                concat (map (\<lambda>j. web_items (page_value client opts (int j))) [0..<k]) \<rparr>"
    by simp
  have "web_results_of (json_of a)
          = Inr (JArr (concat (map (\<lambda>j. web_items (page_value client opts (int j))) [0..<k])))"
    using web_results_of_json_of [of a] aw by simp
  with res noerr a0 aw show ?thesis by auto
qed

theorem C3_later_page_failure_witness:
  "(1::nat) \<le> 2 \<and> int 2 < num_pages 25
   \<and> \<not> page_fails 0 (page_value two_page_client example_opts 0)
   \<and> \<not> page_fails 1 (page_value two_page_client example_opts 1)
   \<and> web_items (page_value two_page_client example_opts 0)
        = [JObj [(''title'', JStr ''A'')], JObj [(''title'', JStr ''B'')]]
   \<and> web_items (page_value two_page_client example_opts 1) = [JObj [(''title'', JStr ''C'')]]
   \<and> page_fails 2 (page_value two_page_client example_opts 2)
   \<and> snd (search_with_pagination two_page_client example_opts 25 [])
       = [page_request_of example_opts 0, page_request_of example_opts 1, page_request_of example_opts 2]
   \<and> fst (search_with_pagination two_page_client example_opts 25 [])
       = JObj [(''web'', JObj [(''results'', JArr [JObj [(''title'', JStr ''A'')],
                                                    JObj [(''title'', JStr ''B'')],
                                                    JObj [(''title'', JStr ''C'')]]),
                               (''family_friendly'', JBool True)]),
                (''type'', JStr ''search'')]"
  using C3_later_page_failure [of 2 25 two_page_client example_opts "[]"]
  by (simp add: two_page_value_0 two_page_value_1 two_page_value_2 example_fails_0 second_page_ok
                example_fails_2 example_web_items example_merge_0 num_pages_25 json_of_def
                numeral_2_eq_2 All_less_Suc)

text \<open>
  Claim C4, as stated, at \<^verbatim>\<open>max_results = -1\<close>. The number of pages is
  \<^verbatim>\<open>(-1 + 10 - 1) // 10 = 0\<close>, the loop body never runs, and the function returns
  \<^verbatim>\<open>{"web": {"results": []}}\<close>: an envelope without error whose list has 0 items, which is
  more than the requested maximum.
\<close>

theorem C4_negative_max_results_counterexample:
  "fst (search_with_pagination example_client example_opts (-1) [])
     = JObj [(''web'', JObj [(''results'', JArr [])])]
   \<and> py_in ''error'' (fst (search_with_pagination example_client example_opts (-1) [])) = Inr False
   \<and> web_results_of (fst (search_with_pagination example_client example_opts (-1) [])) = Inr (JArr [])
   \<and> \<not> int (length ([] :: json list)) \<le> -1"
  by (simp add: search_with_pagination_def py_range_def num_pages_15 json_of_def initial_results_def
                web_results_of_def and_then_def)

text \<open>
  Claim C4, amended. For \<^verbatim>\<open>max_results \<ge> 0\<close>: whenever the returned envelope has no
  \<^verbatim>\<open>"error"\<close> key, it has a list under \<^verbatim>\<open>["web"]["results"]\<close> with at most \<^verbatim>\<open>max_results\<close>
  items. And whenever the loop arrives at a page, the page does not fail and merging it
  brings the number of accumulated items to \<^verbatim>\<open>max_results\<close> or more, the function returns
  with the list cut to its first \<^verbatim>\<open>max_results\<close> items, exactly that many, and the request
  of this page is the last one sent.
\<close>

theorem C4_result_count_bounded:
  assumes "0 \<le> max_results"
  shows "(py_in ''error'' (fst (search_with_pagination client opts max_results sent)) = Inr False
            \<longrightarrow> (\<exists>items. web_results_of (fst (search_with_pagination client opts max_results sent))
                            = Inr (JArr items)
                    \<and> int (length items) \<le> max_results))
       \<and> (\<forall>k a a1.
             arrives client opts max_results k = Some a
             \<and> int k < num_pages max_results
             \<and> \<not> page_fails (int k) (page_value client opts (int k))
             \<and> merge_page (int k) a (page_value client opts (int k)) = Inr a1
             \<and> max_results \<le> int (length (result_items a1))
             \<longrightarrow> search_with_pagination client opts max_results sent
                   = (json_of (a1\<lparr> result_items := take (nat max_results) (result_items a1) \<rparr>),
                      sent @ map (\<lambda>i. page_request_of opts (int i)) [0..<Suc k])
                 \<and> int (length (take (nat max_results) (result_items a1))) = max_results)"
proof (rule conjI; intro allI impI)
  assume noerr: "py_in ''error'' (fst (search_with_pagination client opts max_results sent)) = Inr False"
  from swp_outcomes [of client opts max_results sent]
  show "\<exists>items. web_results_of (fst (search_with_pagination client opts max_results sent))
                            = Inr (JArr items)
                    \<and> int (length items) \<le> max_results"
  proof
    assume "\<exists>a. arrives client opts max_results (nat (num_pages max_results)) = Some a
            \<and> search_with_pagination client opts max_results sent
                = (json_of a, sent @ map (\<lambda>i. page_request_of opts (int i)) [0..<nat (num_pages max_results)])"
    then obtain a where a: "arrives client opts max_results (nat (num_pages max_results)) = Some a"
      and res: "fst (search_with_pagination client opts max_results sent) = json_of a"
      by auto
    have "int (length (result_items a)) \<le> max_results"
    proof (cases "nat (num_pages max_results) = 0")
      case True
      with a have "a = initial_results" by simp
      with assms show ?thesis by (simp add: initial_results_def)
    next
      case False
      then have "1 \<le> nat (num_pages max_results)" by simp
      from arrives_shape [OF a this] show ?thesis by auto
    qed
    with res web_results_of_json_of [of a] show ?thesis by simp
  next
    assume "\<exists>k a. k < nat (num_pages max_results) \<and> arrives client opts max_results k = Some a
            \<and> (\<forall>a'. page_step (int k) max_results a (page_value client opts (int k)) \<noteq> Continue a')
            \<and> search_with_pagination client opts max_results sent
                = ((case page_step (int k) max_results a (page_value client opts (int k)) of
                      Return v \<Rightarrow> v | Break a' \<Rightarrow> json_of a' | Continue a' \<Rightarrow> json_of a'),
                   sent @ map (\<lambda>i. page_request_of opts (int i)) [0..<Suc k])"
    then obtain k a where a: "arrives client opts max_results k = Some a"
      and st: "\<forall>a'. page_step (int k) max_results a (page_value client opts (int k)) \<noteq> Continue a'"
      and res: "fst (search_with_pagination client opts max_results sent)
                = (case page_step (int k) max_results a (page_value client opts (int k)) of
                      Return v \<Rightarrow> v | Break a' \<Rightarrow> json_of a' | Continue a' \<Rightarrow> json_of a')"
      by auto
    from stop_reason [OF a st] show ?thesis
    proof (elim disjE conjE exE)
      fix v
      assume "page_step (int k) max_results a (page_value client opts (int k)) = Return v"
        "py_in ''error'' v = Inr True"
      with res noerr show ?thesis by simp
    next
      assume k1: "1 \<le> k"
        and "page_step (int k) max_results a (page_value client opts (int k)) = Break a"
      with res have "fst (search_with_pagination client opts max_results sent) = json_of a" by simp
      moreover from arrives_shape [OF a k1] have "int (length (result_items a)) \<le> max_results" by auto
      ultimately show ?thesis using web_results_of_json_of [of a] by simp
    next
      fix a1
      assume "page_step (int k) max_results a (page_value client opts (int k))
                = Break (a1\<lparr> result_items := py_slice_to max_results (result_items a1) \<rparr>)"
      with res have "fst (search_with_pagination client opts max_results sent)
                = json_of (a1\<lparr> result_items := py_slice_to max_results (result_items a1) \<rparr>)" by simp
      then show ?thesis
        using web_results_of_json_of [of "a1\<lparr> result_items := py_slice_to max_results (result_items a1) \<rparr>"]
              length_py_slice_to [OF assms, of "result_items a1"]
        by simp
    qed
  qed
next
  fix k a a1
  assume h: "arrives client opts max_results k = Some a
             \<and> int k < num_pages max_results
             \<and> \<not> page_fails (int k) (page_value client opts (int k))
             \<and> merge_page (int k) a (page_value client opts (int k)) = Inr a1
             \<and> max_results \<le> int (length (result_items a1))"
  then have a: "arrives client opts max_results k = Some a"
    and lt: "k < nat (num_pages max_results)"
    and nf: "\<not> page_fails (int k) (page_value client opts (int k))"
    and a1: "merge_page (int k) a (page_value client opts (int k)) = Inr a1"
    and full: "max_results \<le> int (length (result_items a1))"
    by auto
  have step: "page_step (int k) max_results a (page_value client opts (int k))
                = Break (a1\<lparr> result_items := py_slice_to max_results (result_items a1) \<rparr>)"
    using page_step_ok [OF nf a1, of max_results] full by simp
  from length_py_slice_to_eq [OF assms full]
  have sl: "py_slice_to max_results (result_items a1) = take (nat max_results) (result_items a1)"
    and len: "int (length (take (nat max_results) (result_items a1))) = max_results"
    by simp_all
  have "search_with_pagination client opts max_results sent
          = (json_of (a1\<lparr> result_items := take (nat max_results) (result_items a1) \<rparr>),
             sent @ map (\<lambda>i. page_request_of opts (int i)) [0..<Suc k])"
    using loop_stopped_at [OF a lt, of sent] step sl by (simp add: swp_loop)
  with len show "search_with_pagination client opts max_results sent
                   = (json_of (a1\<lparr> result_items := take (nat max_results) (result_items a1) \<rparr>),
                      sent @ map (\<lambda>i. page_request_of opts (int i)) [0..<Suc k])
                 \<and> int (length (take (nat max_results) (result_items a1))) = max_results"
    by simp
qed

theorem C4_result_count_bounded_witness:
  "(0::int) \<le> 1
   \<and> arrives example_client example_opts 1 0 = Some initial_results
   \<and> int 0 < num_pages 1
   \<and> \<not> page_fails (int 0) (page_value example_client example_opts (int 0))
   \<and> search_with_pagination example_client example_opts 1 []
       = (JObj [(''web'', JObj [(''results'', JArr [JObj [(''title'', JStr ''A'')]]),
                               (''family_friendly'', JBool True)]),
                (''type'', JStr ''search'')],
          [page_request_of example_opts 0])
   \<and> py_in ''error'' (fst (search_with_pagination example_client example_opts 1 [])) = Inr False"
  using C4_result_count_bounded [of 1 example_client example_opts "[]", THEN conjunct2, rule_format,
          of 0 initial_results
             "\<lparr> result_items = [JObj [(''title'', JStr ''A'')], JObj [(''title'', JStr ''B'')]],
                web_meta = [(''family_friendly'', JBool True)],
                top_meta = [(''type'', JStr ''search'')] \<rparr>"]
  by (simp add: example_page_value_0 example_fails_0 example_merge_0 num_pages_15 json_of_def)

text \<open>
  Claim C5, as stated, at a first page that answers 200 with
  \<^verbatim>\<open>{"type": "search", "query": {"original": "cats"}}\<close> and no \<^verbatim>\<open>"web"\<close> entry. The page
  does not fail, yet its key \<^verbatim>\<open>"type"\<close> is not in the returned envelope: the two loops
  that copy metadata are inside the branch
  \<^verbatim>\<open>if "web" in page_results and "results" in page_results["web"]\<close>.
\<close>

theorem C5_bare_first_page_counterexample:
  "\<not> page_fails 0 (page_value bare_client example_opts 0)
   \<and> py_getitem (page_value bare_client example_opts 0) ''type'' = Inr (JStr ''search'')
   \<and> search_with_pagination bare_client example_opts 3 []
       = (JObj [(''web'', JObj [(''results'', JArr [])])], [page_request_of example_opts 0])
   \<and> py_in ''type'' (fst (search_with_pagination bare_client example_opts 3 [])) = Inr False"
proof -
  have step: "page_step 0 3 initial_results bare_page = Continue initial_results"
    by (simp add: page_step_def page_body_def merge_page_def bare_page_def initial_results_def)
  have run: "search_with_pagination bare_client example_opts 3 []
       = (json_of initial_results, [page_request_of example_opts 0])"
    by (simp add: search_with_pagination_def py_range_def num_pages_15 fetch_page_eq
                  bare_page_value_0 step)
  show ?thesis
    by (simp add: run bare_page_value_0 bare_page_ok json_of_def initial_results_def)
       (simp add: bare_page_def)
qed

text \<open>
  Claim C5, amended. When page 0 is fetched and does not fail:
  if page 0 is a dictionary with an entry under \<^verbatim>\<open>["web"]["results"]\<close>, the entries of the
  returned envelope after \<^verbatim>\<open>"web"\<close> are exactly the entries of page 0 whose key is not
  \<^verbatim>\<open>"web"\<close>, in page 0's order, and the entries of the returned \<^verbatim>\<open>"web"\<close> dictionary after
  \<^verbatim>\<open>"results"\<close> are exactly those of page 0's \<^verbatim>\<open>"web"\<close> dictionary whose key is not
  \<^verbatim>\<open>"results"\<close> (the keys of a dictionary being distinct);
  if page 0 has no entry under \<^verbatim>\<open>["web"]["results"]\<close>, the returned envelope has no
  metadata at all.
  In both cases the metadata is what merging page 0 alone produces, every entry of it an
  entry of page 0, whatever the later pages hold; the pages contribute items otherwise:
  the returned list is a prefix of the lists \<^verbatim>\<open>page_results["web"]["results"]\<close> of pages
  \<open>0, 1, ...\<close> put one after the other.
\<close>

theorem C5_metadata_from_first_page:
  assumes "1 \<le> max_results"
      and "\<not> page_fails 0 (page_value client opts 0)"
  shows "\<exists>a0 items.
           merge_page 0 initial_results (page_value client opts 0) = Inr a0
         \<and> fst (search_with_pagination client opts max_results sent)
             = JObj ((''web'', JObj ((''results'', JArr items) # web_meta a0)) # top_meta a0)
         \<and> prefix items
             (concat (map (\<lambda>j. web_items (page_value client opts (int j)))
                        [0..<nat (num_pages max_results)]))
         \<and> (\<forall>kvs web r.
               page_value client opts 0 = JObj kvs \<and> map_of kvs ''web'' = Some (JObj web)
               \<and> map_of web ''results'' = Some r
               \<and> distinct (map fst kvs) \<and> distinct (map fst web)
               \<longrightarrow> top_meta a0 = filter (\<lambda>kv. fst kv \<noteq> ''web'') kvs
                 \<and> web_meta a0 = filter (\<lambda>kv. fst kv \<noteq> ''results'') web)
         \<and> ((\<exists>e. web_results_of (page_value client opts 0) = Inl e)
               \<longrightarrow> top_meta a0 = [] \<and> web_meta a0 = [])
         \<and> (\<forall>kv \<in> set (top_meta a0).
               fst kv \<noteq> ''web'' \<and> (\<exists>kvs. page_value client opts 0 = JObj kvs \<and> kv \<in> set kvs))
         \<and> (\<forall>kv \<in> set (web_meta a0).
               fst kv \<noteq> ''results''
               \<and> (\<exists>kvs web. page_value client opts 0 = JObj kvs
                     \<and> map_of kvs ''web'' = Some (JObj web) \<and> kv \<in> set web))"
proof -
  from first_page_ok_run [OF assms, of sent] obtain a0 items where
    a0: "merge_page 0 initial_results (page_value client opts 0) = Inr a0"
    and res: "fst (search_with_pagination client opts max_results sent)
                = json_of (a0\<lparr> result_items := items \<rparr>)"
    and pre: "prefix items (concat (map (\<lambda>j. web_items (page_value client opts (int j)))
                        [0..<nat (num_pages max_results)]))"
    by blast
  from res have "fst (search_with_pagination client opts max_results sent)
             = JObj ((''web'', JObj ((''results'', JArr items) # web_meta a0)) # top_meta a0)"
    by (simp add: json_of_fields)
  with a0 pre merge_page_first_copied [OF a0] merge_page_first [OF a0] show ?thesis
    by blast
qed

theorem C5_metadata_from_first_page_witness:
  "(1::int) \<le> 25
   \<and> \<not> page_fails 0 (page_value two_page_client example_opts 0)
   \<and> page_value two_page_client example_opts 0 = example_page
   \<and> page_value two_page_client example_opts 1 = second_page
   \<and> (\<exists>items. fst (search_with_pagination two_page_client example_opts 25 [])
         = JObj [(''web'', JObj [(''results'', JArr items), (''family_friendly'', JBool True)]),
                 (''type'', JStr ''search'')]
       \<and> prefix items [JObj [(''title'', JStr ''A'')], JObj [(''title'', JStr ''B'')],
                        JObj [(''title'', JStr ''C'')]])"
  using C5_metadata_from_first_page [of 25 two_page_client example_opts "[]"]
  by (auto simp: two_page_value_0 two_page_value_1 two_page_value_2 example_fails_0 example_merge_0
                 example_web_items web_items_error_envelope num_pages_25 numeral_3_eq_3)

text \<open>
  Claim C6. For \<^verbatim>\<open>max_results \<ge> 1\<close>, with \<open>num_pages\<close> the ceiling of \<^verbatim>\<open>max_results / 10\<close>:
  the requests sent are those of pages \<open>0..k-1\<close> in this order, for some
  \<open>1 \<le> k \<le> num_pages\<close>, and \<open>k < num_pages\<close> only if the last page attempted failed or the
  returned list holds exactly \<^verbatim>\<open>max_results\<close> items (the threshold was reached). The
  request of page \<open>i\<close> carries \<^verbatim>\<open>count = 10\<close> and \<^verbatim>\<open>offset = i\<close>.
\<close>

theorem C6_pages_attempted:
  assumes "1 \<le> max_results"
  shows "num_pages max_results = \<lceil>real_of_int max_results / 10\<rceil>
       \<and> (\<exists>k. 1 \<le> k \<and> int k \<le> num_pages max_results
             \<and> snd (search_with_pagination client opts max_results sent)
                 = sent @ map (\<lambda>i. page_request_of opts (int i)) [0..<k]
             \<and> (int k < num_pages max_results \<longrightarrow>
                   page_fails (int (k - 1)) (page_value client opts (int (k - 1)))
                 \<or> (\<exists>items. web_results_of (fst (search_with_pagination client opts max_results sent))
                               = Inr (JArr items)
                           \<and> int (length items) = max_results)))
       \<and> (\<forall>i. map_of (req_params (page_request_of opts i)) ''count'' = Some (JNum 10)
              \<and> map_of (req_params (page_request_of opts i)) ''offset'' = Some (JNum i))"
proof (intro conjI)
  show "num_pages max_results = \<lceil>real_of_int max_results / 10\<rceil>"
    by (rule num_pages_is_ceiling)
next
  show "\<forall>i. map_of (req_params (page_request_of opts i)) ''count'' = Some (JNum 10)
              \<and> map_of (req_params (page_request_of opts i)) ''offset'' = Some (JNum i)"
    by (simp add: page_request_params)
next
  let ?n = "nat (num_pages max_results)"
  from assms have n1: "1 \<le> ?n" and m0: "0 \<le> max_results"
    using num_pages_pos [of max_results] by simp_all
  from swp_outcomes [of client opts max_results sent]
  show "\<exists>k. 1 \<le> k \<and> int k \<le> num_pages max_results
             \<and> snd (search_with_pagination client opts max_results sent)
                 = sent @ map (\<lambda>i. page_request_of opts (int i)) [0..<k]
             \<and> (int k < num_pages max_results \<longrightarrow>
                   page_fails (int (k - 1)) (page_value client opts (int (k - 1)))
                 \<or> (\<exists>items. web_results_of (fst (search_with_pagination client opts max_results sent))
                               = Inr (JArr items)
                           \<and> int (length items) = max_results))"
  proof
    assume "\<exists>a. arrives client opts max_results ?n = Some a
            \<and> search_with_pagination client opts max_results sent
                = (json_of a, sent @ map (\<lambda>i. page_request_of opts (int i)) [0..<?n])"
    then have "snd (search_with_pagination client opts max_results sent)
                 = sent @ map (\<lambda>i. page_request_of opts (int i)) [0..<?n]"
      by auto
    with n1 show ?thesis by (intro exI [of _ ?n]) simp
  next
    assume "\<exists>k a. k < ?n \<and> arrives client opts max_results k = Some a
            \<and> (\<forall>a'. page_step (int k) max_results a (page_value client opts (int k)) \<noteq> Continue a')
            \<and> search_with_pagination client opts max_results sent
                = ((case page_step (int k) max_results a (page_value client opts (int k)) of
                      Return v \<Rightarrow> v | Break a' \<Rightarrow> json_of a' | Continue a' \<Rightarrow> json_of a'),
                   sent @ map (\<lambda>i. page_request_of opts (int i)) [0..<Suc k])"
    then obtain k a where kn: "k < ?n" and a: "arrives client opts max_results k = Some a"
      and st: "\<forall>a'. page_step (int k) max_results a (page_value client opts (int k)) \<noteq> Continue a'"
      and res: "fst (search_with_pagination client opts max_results sent)
                = (case page_step (int k) max_results a (page_value client opts (int k)) of
                      Return v \<Rightarrow> v | Break a' \<Rightarrow> json_of a' | Continue a' \<Rightarrow> json_of a')"
      and reqs: "snd (search_with_pagination client opts max_results sent)
                = sent @ map (\<lambda>i. page_request_of opts (int i)) [0..<Suc k]"
      by auto
    have why: "page_fails (int k) (page_value client opts (int k))
                 \<or> (\<exists>items. web_results_of (fst (search_with_pagination client opts max_results sent))
                               = Inr (JArr items)
                           \<and> int (length items) = max_results)"
      using stop_reason [OF a st]
    proof (elim disjE conjE exE)
      fix a1
      assume full: "max_results \<le> int (length (result_items a1))"
        and step: "page_step (int k) max_results a (page_value client opts (int k))
                = Break (a1\<lparr> result_items := py_slice_to max_results (result_items a1) \<rparr>)"
      from res step have "web_results_of (fst (search_with_pagination client opts max_results sent))
          = Inr (JArr (py_slice_to max_results (result_items a1)))"
        by (simp add: web_results_of_json_of)
      with length_py_slice_to_eq [OF m0 full] show ?thesis by auto
    qed simp_all
    from kn have "int (Suc k) \<le> num_pages max_results" by simp
    with reqs why show ?thesis by (intro exI [of _ "Suc k"]) simp
  qed
qed

theorem C6_pages_attempted_witness:
  "(1::int) \<le> 15
   \<and> num_pages 15 = 2
   \<and> (\<exists>k. 1 \<le> k \<and> int k \<le> 2
         \<and> snd (search_with_pagination example_client example_opts 15 [])
             = map (\<lambda>i. page_request_of example_opts (int i)) [0..<k])
   \<and> map_of (req_params (page_request_of example_opts 1)) ''count'' = Some (JNum 10)
   \<and> map_of (req_params (page_request_of example_opts 1)) ''offset'' = Some (JNum 1)"
  using C6_pages_attempted [of 15 example_client example_opts "[]"]
  by (auto simp: num_pages_15)

end
